theory Spec2Isabelle
  imports Complex_Main "HOL-Library.Multiset" "HOL-Library.Log_Nat"
begin

section \<open>Rank-date projection engine (osuFunctions.ts)\<close>

text \<open>
  A shallow embedding of \<^verbatim>\<open>src/edgeFunctions/supabase/functions/_shared/osuFunctions.ts\<close>.

  Conventions of the embedding.
  \<^item> A \<^verbatim>\<open>Date\<close> is its \<^verbatim>\<open>getTime()\<close> value: an \<open>int\<close> of milliseconds since the epoch.
    A nullable date is an \<open>int option\<close>; calling \<^verbatim>\<open>.getTime()\<close> on \<^verbatim>\<open>null\<close> or reading
    a property of \<^verbatim>\<open>undefined\<close> is the JavaScript \<^verbatim>\<open>TypeError\<close>, a value of the type
    \<open>error\<close>.
  \<^item> JavaScript numbers that hold probabilities and delays are doubles. They are embedded
    twice. The probability engine is embedded over \<open>real\<close>, in exact arithmetic: this is
    the code with the rounding of each operation left out, and it is used for statements
    that do not depend on the rounding (values that are 0 or 1 by a comparison alone, and
    the equality of two computations made of the same operations). \<^verbatim>\<open>uniformSumCDF\<close> and
    the functions it calls are embedded a second time with every operation rounded to the
    nearest double (\<open>uniformSumCDF_double\<close>), for the statements about the exact value
    the code returns. The one place of the file where a \<^verbatim>\<open>NaN\<close> is produced from finite
    inputs (\<^verbatim>\<open>0 / 0\<close> in \<^verbatim>\<open>probabilityAfter\<close>) is kept as the value \<open>NaN\<close> of the type
    \<open>number\<close>.
  \<^item> \<^verbatim>\<open>constants.ts\<close> is not part of the sources; the constants it exports are the fields
    of the record \<open>constants\<close>, a parameter of every function that reads one.
  \<^item> The arrays handed to the projector hold object references. The embedding represents
    each referenced object by its position in \<^verbatim>\<open>combined\<close>, which is exact when the
    references are pairwise distinct, as they are for the arrays built by
    \<^verbatim>\<open>databaseToSplitModes\<close> (one fresh object per database row).
\<close>

subsection \<open>Constants, numbers, errors\<close>

record constants =
  DAY :: int
  HOUR :: int
  MINUTE :: int
  RANK_INTERVAL :: int
  RANK_PER_RUN :: nat
  RANK_PER_DAY :: nat
  MINIMUM_DAYS_FOR_RANK :: int
  MAXIMUM_PENALTY_DAYS :: int
  DELAY_MIN :: real
  DELAY_MAX :: real
  SPLIT :: real

datatype error = TypeError

datatype number = Num real | NaN

text \<open>\<^verbatim>\<open>d.getTime()\<close> for a nullable date \<^verbatim>\<open>d\<close>.\<close>

definition getTime :: "int option \<Rightarrow> error + int" where
  "getTime d = (case d of None \<Rightarrow> Inl TypeError | Some t \<Rightarrow> Inr t)"

subsection \<open>Distributions, in exact arithmetic\<close>

text \<open>
  \<^verbatim>\<open>perm(n, k)\<close>: \<^verbatim>\<open>let p = 1; for (let i = 0; i < k; i++) p = p * (n - i)\<close>.
  The loop counter runs upwards; \<open>perm_loop n k i p\<close> is the loop entered with counter \<open>i\<close>
  and accumulator \<open>p\<close>.
\<close>

function perm_loop :: "nat \<Rightarrow> nat \<Rightarrow> nat \<Rightarrow> real \<Rightarrow> real" where
  "perm_loop n k i p = (if i < k then perm_loop n k (Suc i) (p * (real n - real i)) else p)"
  by pat_completeness auto
termination
  by (relation "measure (\<lambda>(n, k, i, p). k - i)") auto

declare perm_loop.simps [simp del]

definition perm :: "nat \<Rightarrow> nat \<Rightarrow> real" where
  "perm n k = perm_loop n k 0 1"

definition factorial :: "nat \<Rightarrow> real" where
  "factorial n = perm n n"

text \<open>
  \<^verbatim>\<open>binomial(n, k)\<close> (here \<open>binomial_js\<close>): \<^verbatim>\<open>if (k < 0 || k > n) return 0\<close>, else the product of
  \<^verbatim>\<open>(n - i) / (k - i)\<close> for \<^verbatim>\<open>i = 0 .. k-1\<close>. The arguments are loop counters, so naturals;
  \<^verbatim>\<open>k < 0\<close> cannot hold.
\<close>

function binomial_loop :: "nat \<Rightarrow> nat \<Rightarrow> nat \<Rightarrow> real \<Rightarrow> real" where
  "binomial_loop n k i p =
     (if i < k then binomial_loop n k (Suc i) (p * ((real n - real i) / (real k - real i))) else p)"
  by pat_completeness auto
termination
  by (relation "measure (\<lambda>(n, k, i, p). k - i)") auto

declare binomial_loop.simps [simp del]

definition binomial_js :: "nat \<Rightarrow> nat \<Rightarrow> real" where
  "binomial_js n k = (if k > n then 0 else binomial_loop n k 0 1)"

definition sgn_js :: "real \<Rightarrow> real" where
  "sgn_js x = (if x > 0 then 1 else if x < 0 then -1 else 0)"

text \<open>
  The summation loop of \<^verbatim>\<open>uniformSumCDF\<close>, \<^verbatim>\<open>for (let k = 0; k <= n; k++)\<close>, entered with
  counter \<open>k\<close> and the accumulator \<^verbatim>\<open>sum\<close> (here \<open>acc\<close>).
\<close>

function cdf_loop :: "nat \<Rightarrow> real \<Rightarrow> nat \<Rightarrow> real \<Rightarrow> real" where
  "cdf_loop n x k acc =
     (if k \<le> n
      then cdf_loop n x (Suc k)
             (acc + (-1) ^ k * binomial_js n k * sgn_js (x - real k) * (x - real k) ^ n)
      else acc)"
  by pat_completeness auto
termination
  by (relation "measure (\<lambda>(n, x, k, acc). Suc n - k)") auto

declare cdf_loop.simps [simp del]

definition uniformSumCDF :: "nat \<Rightarrow> real \<Rightarrow> real" where
  "uniformSumCDF n x =
     (if x < 0 then 0
      else if x > real n then 1
      else 0.5 + cdf_loop n x 0 0 / (2 * factorial n))"

subsection \<open>Distributions, in double precision\<close>

text \<open>
  A JavaScript number is an IEEE 754 double, and each arithmetic operation returns the
  double nearest to its exact result, a tie going to the even significand. \<open>double x\<close> is
  that rounding of a real \<open>x\<close>: \<open>x\<close> is scaled by the power of two \<open>pow2 e\<close> that leaves a
  significand of 53 bits (\<open>e = ilog2 \<bar>x\<bar> - 52\<close>, where \<open>ilog2 x\<close> is the binary exponent of
  \<open>x\<close>, the floor of its logarithm to base 2), and not below the step \<open>2^-1074\<close> of the
  subnormal numbers; the scaled value is rounded to the nearest integer by \<open>round_even\<close>.
  Overflow to \<^verbatim>\<open>Infinity\<close> is not represented: the rounding is the one of the code for
  results below \<open>2^1024\<close> in magnitude. The two zeros of the doubles are the one real 0;
  no comparison of the code tells them apart.
\<close>

definition pow2 :: "int \<Rightarrow> real" where
  "pow2 e = (if 0 \<le> e then 2 ^ nat e else 1 / 2 ^ nat (- e))"

definition ilog2 :: "real \<Rightarrow> int" where
  "ilog2 x = (if 1 \<le> x then bitlen \<lfloor>x\<rfloor> - 1 else - bitlen (\<lceil>1 / x\<rceil> - 1))"

definition round_even :: "real \<Rightarrow> int" where
  "round_even y =
     (let f = \<lfloor>y\<rfloor>; d = y - real_of_int f
      in if d < 1 / 2 then f else if 1 / 2 < d then f + 1 else if even f then f else f + 1)"

definition double :: "real \<Rightarrow> real" where
  "double x =
     (if x = 0 then 0
      else let e = max (ilog2 \<bar>x\<bar> - 52) (- 1074)
           in real_of_int (round_even (x / pow2 e)) * pow2 e)"

text \<open>
  \<^verbatim>\<open>perm\<close>, \<^verbatim>\<open>factorial\<close>, \<^verbatim>\<open>binomial\<close> and \<^verbatim>\<open>uniformSumCDF\<close> once more, now with the
  result of every subtraction, multiplication, division and addition rounded, in the
  order in which the code evaluates them: \<^verbatim>\<open>p * ((n - i) / (k - i))\<close> is one subtraction
  in each operand, the division, then the multiplication, and
  \<^verbatim>\<open>Math.pow(-1, k) * binomial(n, k) * sgn(x - k) * Math.pow(x - k, n)\<close> is multiplied from
  the left. \<^verbatim>\<open>sgn\<close> compares and returns 1, -1 or 0, so it is \<open>sgn_js\<close> as before.

  The language leaves the precision of \<^verbatim>\<open>Math.pow\<close> to the implementation. \<open>pow_double\<close>
  takes it as correctly rounded. Where the base is an integer and the power is below
  \<open>2^53\<close> in magnitude, as at the boundary points \<open>x = 0\<close> and \<open>x = n\<close> for \<open>n \<le> 7\<close>, the
  exact power is a double, and it is what any implementation returns whose error is
  below one unit in the last place.
\<close>

function perm_loop_double :: "nat \<Rightarrow> nat \<Rightarrow> nat \<Rightarrow> real \<Rightarrow> real" where
  "perm_loop_double n k i p =
     (if i < k then perm_loop_double n k (Suc i) (double (p * double (real n - real i))) else p)"
  by pat_completeness auto
termination
  by (relation "measure (\<lambda>(n, k, i, p). k - i)") auto

declare perm_loop_double.simps [simp del]

definition perm_double :: "nat \<Rightarrow> nat \<Rightarrow> real" where
  "perm_double n k = perm_loop_double n k 0 1"

definition factorial_double :: "nat \<Rightarrow> real" where
  "factorial_double n = perm_double n n"

function binomial_loop_double :: "nat \<Rightarrow> nat \<Rightarrow> nat \<Rightarrow> real \<Rightarrow> real" where
  "binomial_loop_double n k i p =
     (if i < k
      then binomial_loop_double n k (Suc i)
             (double (p * double (double (real n - real i) / double (real k - real i))))
      else p)"
  by pat_completeness auto
termination
  by (relation "measure (\<lambda>(n, k, i, p). k - i)") auto

declare binomial_loop_double.simps [simp del]

definition binomial_double :: "nat \<Rightarrow> nat \<Rightarrow> real" where
  "binomial_double n k = (if k > n then 0 else binomial_loop_double n k 0 1)"

definition pow_double :: "real \<Rightarrow> nat \<Rightarrow> real" where
  "pow_double b n = double (b ^ n)"

function cdf_loop_double :: "nat \<Rightarrow> real \<Rightarrow> nat \<Rightarrow> real \<Rightarrow> real" where
  "cdf_loop_double n x k acc =
     (if k \<le> n
      then cdf_loop_double n x (Suc k)
             (double (acc +
                double (double (double (pow_double (-1) k * binomial_double n k)
                                  * sgn_js (double (x - real k)))
                          * pow_double (double (x - real k)) n)))
      else acc)"
  by pat_completeness auto
termination
  by (relation "measure (\<lambda>(n, x, k, acc). Suc n - k)") auto

declare cdf_loop_double.simps [simp del]

definition uniformSumCDF_double :: "nat \<Rightarrow> real \<Rightarrow> real" where
  "uniformSumCDF_double n x =
     (if x < 0 then 0
      else if x > real n then 1
      else double (0.5 + double (cdf_loop_double n x 0 0 / double (2 * factorial_double n))))"

subsection \<open>Dates on the rank-interval grid\<close>

text \<open>
  \<^verbatim>\<open>roundMinutes(milliseconds, down)\<close>: \<^verbatim>\<open>Math.floor\<close> or \<^verbatim>\<open>Math.ceil\<close> of the quotient by
  \<^verbatim>\<open>RANK_INTERVAL * MINUTE\<close>, times that interval. On integers the floor of the quotient
  is \<open>div\<close> and its ceiling is \<open>- (- m div g)\<close>; the model is meant for a positive
  interval (JavaScript divides by zero to an infinity, HOL to 0).
\<close>

definition roundMinutes :: "constants \<Rightarrow> int \<Rightarrow> bool \<Rightarrow> int" where
  "roundMinutes c milliseconds down =
     (if down
      then milliseconds div (RANK_INTERVAL c * MINUTE c)
      else - ((- milliseconds) div (RANK_INTERVAL c * MINUTE c))) *
     (RANK_INTERVAL c * MINUTE c)"

text \<open>
  \<^verbatim>\<open>Date.getUTCMinutes\<close> and \<^verbatim>\<open>Date.getSeconds\<close> of the instant \<open>t\<close>. The seconds of a local
  time equal the UTC seconds in every zone whose offset is a whole number of minutes.
\<close>

definition getUTCMinutes :: "int \<Rightarrow> int" where
  "getUTCMinutes t = (t div 60000) mod 60"

definition getSeconds :: "int \<Rightarrow> int" where
  "getSeconds t = (t div 1000) mod 60"

text \<open>\<^verbatim>\<open>intervalTimeDelta\<close>: \<^verbatim>\<open>(date.getUTCMinutes() % 20) * 60 + date.getSeconds()\<close>.\<close>

definition intervalTimeDelta :: "int \<Rightarrow> int" where
  "intervalTimeDelta date = (getUTCMinutes date mod 20) * 60 + getSeconds date"

subsection \<open>Probability engine\<close>

text \<open>
  \<^verbatim>\<open>permutations(otherModes, 2)\<close> of the package \<^verbatim>\<open>itertools\<close>: the ordered pairs of
  entries at two different positions, in the order of the positions; empty when the
  array has fewer than two entries.
\<close>

definition permutations2 :: "'a list \<Rightarrow> 'a list list" where
  "permutations2 xs =
     concat (map (\<lambda>i. map (\<lambda>j. [xs ! i, xs ! j]) (filter (\<lambda>j. j \<noteq> i) [0..<length xs]))
                 [0..<length xs])"

text \<open>
  The array \<^verbatim>\<open>permSums\<close> of position \<open>pos\<close>. \<^verbatim>\<open>if (otherModes)\<close> tests for an absent
  argument only: an empty array is truthy.
\<close>

definition permSums_at :: "nat \<Rightarrow> nat list option \<Rightarrow> nat list" where
  "permSums_at pos otherModes =
     (case otherModes of
        None \<Rightarrow> [0]
      | Some om \<Rightarrow>
          if pos = 2 then om
          else if pos = 3 then map (foldl (\<lambda>a b. a + b) 0) (permutations2 om)
          else if pos = 4 then [foldl (\<lambda>a b. a + b) 0 om]
          else [0])"

text \<open>
  The loop \<^verbatim>\<open>for (const permSum of permSums)\<close> with the memo table and \<^verbatim>\<open>modeSum\<close> as
  its state.
\<close>

fun permSum_loop ::
  "constants \<Rightarrow> real \<Rightarrow> nat \<Rightarrow> nat list \<Rightarrow> (nat \<rightharpoonup> real) \<Rightarrow> real \<Rightarrow> (nat \<rightharpoonup> real) \<times> real" where
  "permSum_loop c seconds pos [] memo modeSum = (memo, modeSum)"
| "permSum_loop c seconds pos (permSum # rest) memo modeSum =
     (case memo (pos + permSum) of
        Some v \<Rightarrow> permSum_loop c seconds pos rest memo (modeSum + v)
      | None \<Rightarrow>
          (let transformed =
                 (seconds - real (pos + permSum) * DELAY_MIN c) / (DELAY_MAX c - DELAY_MIN c);
               val = 1 - uniformSumCDF (pos + permSum) transformed
           in permSum_loop c seconds pos rest (memo(pos + permSum \<mapsto> val)) (modeSum + val)))"

text \<open>
  \<^verbatim>\<open>sum += modeSum / permSums.length\<close>. With an empty \<^verbatim>\<open>permSums\<close> the inner loop has not
  run, \<^verbatim>\<open>modeSum\<close> is 0 and the quotient \<^verbatim>\<open>0 / 0\<close> is \<^verbatim>\<open>NaN\<close>, which every later
  addition, division and \<^verbatim>\<open>Math.floor\<close> keeps.
\<close>

definition add_average :: "number \<Rightarrow> real \<Rightarrow> nat \<Rightarrow> number" where
  "add_average acc modeSum len =
     (case acc of
        NaN \<Rightarrow> NaN
      | Num s \<Rightarrow> if len = 0 then NaN else Num (s + modeSum / real len))"

function pos_loop ::
  "constants \<Rightarrow> real \<Rightarrow> nat list option \<Rightarrow> nat \<Rightarrow> (nat \<rightharpoonup> real) \<Rightarrow> number \<Rightarrow> number" where
  "pos_loop c seconds otherModes pos memo acc =
     (if pos \<le> 4
      then (let permSums = permSums_at pos otherModes;
                r = permSum_loop c seconds pos permSums memo 0
            in pos_loop c seconds otherModes (Suc pos) (fst r)
                 (add_average acc (snd r) (length permSums)))
      else acc)"
  by pat_completeness auto
termination
  by (relation "measure (\<lambda>(c, seconds, otherModes, pos, memo, acc). 5 - pos)") auto

declare pos_loop.simps [simp del]

text \<open>\<^verbatim>\<open>Math.floor((sum / 4) * 100000) / 100000\<close>.\<close>

definition floor5 :: "number \<Rightarrow> number" where
  "floor5 acc =
     (case acc of
        NaN \<Rightarrow> NaN
      | Num s \<Rightarrow> Num (real_of_int \<lfloor>(s / 4) * 100000\<rfloor> / 100000))"

definition probabilityAfter :: "constants \<Rightarrow> real \<Rightarrow> nat list option \<Rightarrow> number" where
  "probabilityAfter c seconds otherModes =
     floor5 (pos_loop c seconds otherModes 1 Map.empty (Num 0))"

text \<open>
  The definition without a memo table, every term computed directly as
  \<open>1 - uniformSumCDF m ((seconds - m * DELAY_MIN) / (DELAY_MAX - DELAY_MIN))\<close> with
  \<open>m = pos + permSum\<close>. It follows the wording of the description of the algorithm, not
  the code, and is what the memoized code above is compared with.
\<close>

definition direct_term :: "constants \<Rightarrow> real \<Rightarrow> nat \<Rightarrow> real" where
  "direct_term c seconds m =
     1 - uniformSumCDF m ((seconds - real m * DELAY_MIN c) / (DELAY_MAX c - DELAY_MIN c))"

definition direct_modeSum :: "constants \<Rightarrow> real \<Rightarrow> nat \<Rightarrow> nat list \<Rightarrow> real" where
  "direct_modeSum c seconds pos permSums =
     foldl (\<lambda>modeSum permSum. modeSum + direct_term c seconds (pos + permSum)) 0 permSums"

definition probabilityAfter_unmemoized :: "constants \<Rightarrow> real \<Rightarrow> nat list option \<Rightarrow> number" where
  "probabilityAfter_unmemoized c seconds otherModes =
     floor5
       (foldl (\<lambda>acc pos.
                 add_average acc
                   (direct_modeSum c seconds pos (permSums_at pos otherModes))
                   (length (permSums_at pos otherModes)))
              (Num 0) [1, 2, 3, 4])"

subsection \<open>Data model\<close>

text \<open>
  Modelled from the spec: \<^verbatim>\<open>beatmap.types.ts\<close> is not part of the sources. The spec gives
  the game mode as one of the four integers 0..3 and the fields of \<^verbatim>\<open>Beatmap\<close>,
  \<^verbatim>\<open>BeatmapSet\<close> and of the events; the field names are those the code reads and writes
  (\<open>beatmap_id\<close>, \<open>beatmap_mode\<close> and \<open>set_id\<close> for the fields \<^verbatim>\<open>id\<close> and \<^verbatim>\<open>mode\<close> of a
  beatmap and \<^verbatim>\<open>id\<close> of a set).
\<close>

datatype gamemode = Mode0 | Mode1 | Mode2 | Mode3

fun mode_int :: "gamemode \<Rightarrow> nat" where
  "mode_int Mode0 = 0"
| "mode_int Mode1 = 1"
| "mode_int Mode2 = 2"
| "mode_int Mode3 = 3"

record Beatmap =
  beatmap_id :: int
  ver :: string
  spin :: int
  sr :: real
  len :: int
  beatmap_mode :: gamemode

record BeatmapSet =
  set_id :: int
  queueDate :: "int option"
  rankDate :: "int option"
  rankDateEarly :: "int option"
  artist :: string
  title :: string
  mapper :: string
  mapperId :: int
  probability :: "number option"
  unresolved :: bool
  beatmaps :: "Beatmap list"
  mode :: gamemode
  lastQualifiedDate :: "int option"

datatype event_type = Qualify | Disqualify | Rank | Nominate | NominationReset | OtherType

text \<open>The local type \<^verbatim>\<open>MapEvent\<close> of \<^verbatim>\<open>setQueueDate\<close> (\<open>etype\<close> for its field \<^verbatim>\<open>type\<close>).\<close>

record MapEvent =
  etype :: event_type
  time :: int
  beatmapIds :: "int list"
  nominators :: "int list"
  userId :: int

subsection \<open>Event-log reducer\<close>

text \<open>
  The variables of the replay loop of \<^verbatim>\<open>setQueueDate\<close>. The local array \<^verbatim>\<open>nominators\<close> is
  the field \<open>nominators_local\<close>: the events have a field of the same name.
\<close>

record replay =
  previousQueueDuration :: int
  queuedAt :: "int option"
  lastDisqualifiedEvent :: "MapEvent option"
  nominators_local :: "int list"
  penaltyDays :: int

definition sameIds :: "int list \<Rightarrow> int list \<Rightarrow> bool" where
  "sameIds a b = (length a = length b \<and> list_all (\<lambda>item. item \<in> set b) a)"

definition diffsAdded :: "int list \<Rightarrow> int list \<Rightarrow> bool" where
  "diffsAdded newMapIds oldMapIds =
     (length (filter (\<lambda>beatmapId. beatmapId \<notin> set oldMapIds) newMapIds) > 0)"

text \<open>
  The \<^verbatim>\<open>case "qualify"\<close> branch. \<open>ids\<close> is \<^verbatim>\<open>beatmapSet.beatmaps.map((b) => b.id)\<close>.
  \<^verbatim>\<open>Math.floor(interval / 7)\<close> with \<^verbatim>\<open>interval = (event.time - lastDisqualifiedEvent.time) / DAY\<close>
  is the floor of a quotient of reals.
\<close>

definition replay_qualify :: "constants \<Rightarrow> int list \<Rightarrow> replay \<Rightarrow> MapEvent \<Rightarrow> replay" where
  "replay_qualify c ids st event =
     (let st1 = st\<lparr>queuedAt := Some (time event)\<rparr>;
          st2 = (case lastDisqualifiedEvent st1 of
                   None \<Rightarrow> st1
                 | Some dq \<Rightarrow>
                     if \<not> sameIds (nominators dq) (nominators_local st1)
                     then st1\<lparr>queuedAt := Some (time event), previousQueueDuration := 0\<rparr>
                     else st1)
      in case lastDisqualifiedEvent st2 of
           None \<Rightarrow>
             (let maxAdjustment = (MINIMUM_DAYS_FOR_RANK c - 1) * DAY c;
                  adjustment = min (previousQueueDuration st2) maxAdjustment
              in st2\<lparr>queuedAt := Some (time event - adjustment)\<rparr>)
         | Some dq \<Rightarrow>
             if diffsAdded ids (beatmapIds dq)
             then st2\<lparr>queuedAt := Some (time event)\<rparr>
             else
               (let maxAdjustment = (MINIMUM_DAYS_FOR_RANK c - 1) * DAY c;
                    adjustment = min (previousQueueDuration st2) maxAdjustment;
                    interval = real_of_int (time event - time dq) / real_of_int (DAY c);
                    pd = min \<lfloor>interval / 7\<rfloor> (MAXIMUM_PENALTY_DAYS c)
                in st2\<lparr>penaltyDays := pd,
                       queuedAt := Some (time event - adjustment + pd * DAY c)\<rparr>))"

text \<open>The body of the loop: the \<^verbatim>\<open>switch (event.type)\<close>.\<close>

definition replay_event :: "constants \<Rightarrow> int list \<Rightarrow> replay \<Rightarrow> MapEvent \<Rightarrow> replay" where
  "replay_event c ids st event =
     (case etype event of
        Qualify \<Rightarrow> replay_qualify c ids st event
      | Disqualify \<Rightarrow>
          (let st1 = st\<lparr>lastDisqualifiedEvent := Some event\<rparr>;
               st2 = (case queuedAt st1 of
                        None \<Rightarrow> st1
                      | Some q \<Rightarrow> st1\<lparr>previousQueueDuration := time event - q\<rparr>)
           in st2\<lparr>nominators_local := []\<rparr>)
      | Rank \<Rightarrow> st\<lparr>previousQueueDuration := 0, queuedAt := None\<rparr>
      | Nominate \<Rightarrow> st\<lparr>nominators_local := nominators_local st @ [userId event]\<rparr>
      | NominationReset \<Rightarrow> st\<lparr>nominators_local := []\<rparr>
      | OtherType \<Rightarrow> st)"

definition replay_init :: replay where
  "replay_init =
     \<lparr>previousQueueDuration = 0, queuedAt = None, lastDisqualifiedEvent = None,
      nominators_local = [], penaltyDays = 0\<rparr>"

text \<open>
  The replay of the events in chronological order: the loop
  \<^verbatim>\<open>for (let i = 0; i < events.length; i++)\<close>.
\<close>

definition replay_events :: "constants \<Rightarrow> int list \<Rightarrow> MapEvent list \<Rightarrow> replay" where
  "replay_events c ids events = foldl (replay_event c ids) replay_init events"

text \<open>
  \<^verbatim>\<open>setQueueDate\<close>, from the point where \<^verbatim>\<open>await getMapEvents(...)\<close> has returned.
  \<open>fetched\<close> is that answer after the \<^verbatim>\<open>.map\<close>, newest event first; the code reverses it.
  (A request that fails makes \<^verbatim>\<open>getAPI\<close> throw inside \<^verbatim>\<open>getMapEvents\<close>, before any event
  is replayed; that exit lies before the part embedded here.) From there on the function
  has no \<^verbatim>\<open>throw\<close> and no test of \<^verbatim>\<open>queuedAt\<close>. In
  \<^verbatim>\<open>queuedAt! + MINIMUM_DAYS_FOR_RANK * DAY\<close> the \<^verbatim>\<open>!\<close> is the assertion, made to the type
  checker, that \<^verbatim>\<open>queuedAt\<close> is not \<^verbatim>\<open>null\<close> at this point; it is erased by the compiler,
  nothing checks it when the code runs, and JavaScript adds \<^verbatim>\<open>null\<close> as 0.
\<close>

definition setQueueDate :: "constants \<Rightarrow> BeatmapSet \<Rightarrow> MapEvent list \<Rightarrow> BeatmapSet" where
  "setQueueDate c beatmapSet fetched =
     (let events = rev fetched;
          st = replay_events c (map beatmap_id (beatmaps beatmapSet)) events
      in beatmapSet\<lparr>queueDate :=
           Some ((case queuedAt st of None \<Rightarrow> 0 | Some q \<Rightarrow> q) + MINIMUM_DAYS_FOR_RANK c * DAY c)\<rparr>)"

subsection \<open>Rank-date projector\<close>

text \<open>
  Step A: the loop over \<^verbatim>\<open>combined.slice(0, i).reverse()\<close> that counts the sets without
  unresolved issues (\<open>cnt\<close> is the variable \<^verbatim>\<open>count\<close>) and keeps the \<^verbatim>\<open>RANK_PER_DAY\<close>-th one.
\<close>

fun compare_loop ::
  "constants \<Rightarrow> BeatmapSet list \<Rightarrow> nat \<Rightarrow> BeatmapSet option \<Rightarrow> BeatmapSet option" where
  "compare_loop c [] cnt compareMap = compareMap"
| "compare_loop c (beatmapSet # rest) cnt compareMap =
     (if unresolved beatmapSet then compare_loop c rest cnt compareMap
      else compare_loop c rest (Suc cnt)
             (if Suc cnt = RANK_PER_DAY c then Some beatmapSet else compareMap))"

definition compareDate_at :: "constants \<Rightarrow> nat \<Rightarrow> BeatmapSet list \<Rightarrow> nat \<Rightarrow> int" where
  "compareDate_at c n combined i =
     (case compare_loop c (rev (take i combined)) 0 None of
        None \<Rightarrow> 0
      | Some compareMap \<Rightarrow>
          (case rankDate compareMap of
             None \<Rightarrow> 0
           | Some r \<Rightarrow>
               r + DAY c + (if i \<ge> n + RANK_PER_DAY c then RANK_INTERVAL c * MINUTE c else 0)))"

text \<open>\<^verbatim>\<open>Array.prototype.every\<close> with a callback that may throw: it stops at the first
  \<^verbatim>\<open>false\<close> and at the first exception.\<close>

fun every :: "('a \<Rightarrow> error + bool) \<Rightarrow> 'a list \<Rightarrow> error + bool" where
  "every p [] = Inr True"
| "every p (x # xs) =
     (case p x of Inl e \<Rightarrow> Inl e | Inr b \<Rightarrow> if b then every p xs else Inr False)"

text \<open>\<^verbatim>\<open>roundMinutes(beatmapSet.rankDate!.getTime(), true)\<close>.\<close>

definition rankFloor :: "constants \<Rightarrow> BeatmapSet \<Rightarrow> error + int" where
  "rankFloor c beatmapSet =
     (case getTime (rankDate beatmapSet) of
        Inl e \<Rightarrow> Inl e
      | Inr t \<Rightarrow> Inr (roundMinutes c t True))"

text \<open>\<^verbatim>\<open>filteredMaps[k]\<close>, \<^verbatim>\<open>undefined\<close> out of range, of which a property is read.\<close>

definition element :: "'a list \<Rightarrow> nat \<Rightarrow> error + 'a" where
  "element xs k = (if k < length xs then Inr (xs ! k) else Inl TypeError)"

text \<open>
  Step E1, ``fix date for maps after the adjustment below'': \<open>f0\<close> is \<^verbatim>\<open>filteredMaps[0]\<close>.
\<close>

definition pullForward :: "constants \<Rightarrow> BeatmapSet \<Rightarrow> BeatmapSet \<Rightarrow> error + BeatmapSet" where
  "pullForward c f0 qualifiedMap =
     (case queueDate f0 of
        None \<Rightarrow> Inr qualifiedMap
      | Some _ \<Rightarrow>
          (case getTime (rankDate qualifiedMap) of
             Inl e \<Rightarrow> Inl e
           | Inr rd \<Rightarrow>
               (case rankFloor c f0 of
                  Inl e \<Rightarrow> Inl e
                | Inr r0 \<Rightarrow>
                    if rd < r0
                    then Inr (qualifiedMap\<lparr>rankDate := Some r0, rankDateEarly := Some r0,
                                            probability := Some (Num 0)\<rparr>)
                    else Inr qualifiedMap)))"

text \<open>
  Step E2, ``if 3 maps have the same time, the 3rd map is pushed to next interval''.
\<close>

definition slotOverflow ::
  "constants \<Rightarrow> BeatmapSet list \<Rightarrow> BeatmapSet \<Rightarrow> BeatmapSet \<Rightarrow> error + BeatmapSet" where
  "slotOverflow c filteredMaps f0 qualifiedMap =
     (case every (\<lambda>beatmapSet.
                    case rankFloor c beatmapSet of
                      Inl e \<Rightarrow> Inl e
                    | Inr r \<Rightarrow>
                        (case getTime (rankDateEarly qualifiedMap) of
                           Inl e \<Rightarrow> Inl e
                         | Inr early \<Rightarrow> Inr (r \<ge> roundMinutes c early True)))
                 (take (RANK_PER_RUN c) filteredMaps) of
        Inl e \<Rightarrow> Inl e
      | Inr False \<Rightarrow> Inr qualifiedMap
      | Inr True \<Rightarrow>
          (case every (\<lambda>beatmapSet.
                         case rankFloor c beatmapSet of
                           Inl e \<Rightarrow> Inl e
                         | Inr r \<Rightarrow>
                             (case element filteredMaps (RANK_PER_RUN c - 1) of
                                Inl e \<Rightarrow> Inl e
                              | Inr l \<Rightarrow>
                                  (case rankFloor c l of
                                     Inl e \<Rightarrow> Inl e
                                   | Inr rl \<Rightarrow> Inr (r = rl))))
                      (take (RANK_PER_RUN c) filteredMaps) of
             Inl e \<Rightarrow> Inl e
           | Inr same \<Rightarrow>
               (case rankFloor c f0 of
                  Inl e \<Rightarrow> Inl e
                | Inr r0 \<Rightarrow>
                    (let rd = (if same then r0 + RANK_INTERVAL c * MINUTE c else r0)
                     in Inr (qualifiedMap\<lparr>rankDate := Some rd, rankDateEarly := Some rd,
                                            probability := Some (Num 0)\<rparr>)))))"

text \<open>Step E: the body of \<^verbatim>\<open>if (i - RANK_PER_RUN >= 0 && !qualifiedMap.unresolved)\<close>.\<close>

definition perRunCap ::
  "constants \<Rightarrow> BeatmapSet list \<Rightarrow> nat \<Rightarrow> BeatmapSet \<Rightarrow> error + BeatmapSet" where
  "perRunCap c combined i qualifiedMap =
     (let filteredMaps = rev (filter (\<lambda>beatmapSet. \<not> unresolved beatmapSet) (take i combined))
      in case element filteredMaps 0 of
           Inl e \<Rightarrow> Inl e
         | Inr f0 \<Rightarrow>
             (case pullForward c f0 qualifiedMap of
                Inl e \<Rightarrow> Inl e
              | Inr q \<Rightarrow> slotOverflow c filteredMaps f0 q))"

text \<open>
  Steps B, C and D: the early time, the probability and the rounded rank time of
  \<^verbatim>\<open>combined[i]\<close>, before the per-run cap.
\<close>

definition projectDates ::
  "constants \<Rightarrow> nat \<Rightarrow> BeatmapSet list \<Rightarrow> nat \<Rightarrow> error + BeatmapSet" where
  "projectDates c n combined i =
     (let qualifiedMap = combined ! i;
          compareDate = compareDate_at c n combined i
      in case getTime (queueDate qualifiedMap) of
           Inl e \<Rightarrow> Inl e
         | Inr qd \<Rightarrow>
             (let early = max qd compareDate
              in Inr (qualifiedMap
                   \<lparr>rankDateEarly := Some early,
                    probability :=
                      (if qd > compareDate \<or> i < n + RANK_PER_DAY c
                       then Some (probabilityAfter c (real_of_int (intervalTimeDelta early)) None)
                       else None),
                    rankDate := Some (roundMinutes c early False)\<rparr>)))"

text \<open>
  One iteration of the loop of \<^verbatim>\<open>adjustRankDates\<close>, for an index \<open>i\<close> below the length of
  \<^verbatim>\<open>combined\<close>; \<open>n\<close> is \<^verbatim>\<open>rankedMaps.length\<close>. The object \<^verbatim>\<open>combined[i]\<close> is mutated, which is
  the update of the list at \<open>i\<close>.
\<close>

definition adjust_step ::
  "constants \<Rightarrow> nat \<Rightarrow> BeatmapSet list \<Rightarrow> nat \<Rightarrow> error + BeatmapSet list" where
  "adjust_step c n combined i =
     (case projectDates c n combined i of
        Inl e \<Rightarrow> Inl e
      | Inr q \<Rightarrow>
          if i \<ge> RANK_PER_RUN c \<and> \<not> unresolved q
          then (case perRunCap c combined i q of
                  Inl e \<Rightarrow> Inl e
                | Inr q' \<Rightarrow> Inr (combined[i := q']))
          else Inr (combined[i := q]))"

fun adjust_loop ::
  "constants \<Rightarrow> nat \<Rightarrow> BeatmapSet list \<Rightarrow> nat list \<Rightarrow> error + BeatmapSet list" where
  "adjust_loop c n combined [] = Inr combined"
| "adjust_loop c n combined (i # rest) =
     (case adjust_step c n combined i of
        Inl e \<Rightarrow> Inl e
      | Inr combined' \<Rightarrow> adjust_loop c n combined' rest)"

text \<open>
  \<^verbatim>\<open>adjustRankDates(qualifiedMaps, rankedMaps, start)\<close>. The result is the array
  \<^verbatim>\<open>combined\<close> after the loop: its first \<^verbatim>\<open>rankedMaps.length\<close> entries are the objects of
  \<^verbatim>\<open>rankedMaps\<close>, the others those of \<^verbatim>\<open>qualifiedMaps\<close>, as the caller sees them afterwards.
\<close>

definition adjustRankDates ::
  "constants \<Rightarrow> BeatmapSet list \<Rightarrow> BeatmapSet list \<Rightarrow> nat \<Rightarrow> error + BeatmapSet list" where
  "adjustRankDates c qualifiedMaps rankedMaps start =
     (let combined = rankedMaps @ qualifiedMaps
      in adjust_loop c (length rankedMaps) combined
           [length rankedMaps + start ..< length combined])"

subsection \<open>Cross-mode probability\<close>

text \<open>\<^verbatim>\<open>(beatmapSet.probability ?? 0) > SPLIT\<close>; a comparison with \<^verbatim>\<open>NaN\<close> is false.\<close>

definition aboveSplit :: "constants \<Rightarrow> number option \<Rightarrow> bool" where
  "aboveSplit c p =
     (case p of
        None \<Rightarrow> 0 > SPLIT c
      | Some NaN \<Rightarrow> False
      | Some (Num x) \<Rightarrow> x > SPLIT c)"

definition bucketKey :: "constants \<Rightarrow> BeatmapSet \<Rightarrow> error + int" where
  "bucketKey c beatmapSet =
     (if aboveSplit c (probability beatmapSet)
      then (case getTime (rankDateEarly beatmapSet) of
              Inl e \<Rightarrow> Inl e
            | Inr t \<Rightarrow> Inr (roundMinutes c t True))
      else getTime (rankDate beatmapSet))"

text \<open>
  The first pass of \<^verbatim>\<open>calcEarlyProbability\<close> over the sets of all modes in turn, with the
  object \<^verbatim>\<open>rankDates\<close> as a map from keys to arrays of four counts.
\<close>

fun count_loop ::
  "constants \<Rightarrow> BeatmapSet list \<Rightarrow> (int \<rightharpoonup> nat list) \<Rightarrow> error + (int \<rightharpoonup> nat list)" where
  "count_loop c [] rankDates = Inr rankDates"
| "count_loop c (beatmapSet # rest) rankDates =
     (case bucketKey c beatmapSet of
        Inl e \<Rightarrow> Inl e
      | Inr key \<Rightarrow>
          (let counts = (case rankDates key of None \<Rightarrow> [0, 0, 0, 0] | Some a \<Rightarrow> a);
               m = mode_int (mode beatmapSet)
           in count_loop c rest (rankDates(key \<mapsto> counts[m := counts ! m + 1]))))"

text \<open>
  The second pass, for one set. \<^verbatim>\<open>rankDates[key]?.filter(...)\<close> is \<^verbatim>\<open>undefined\<close> when the
  key is absent.
\<close>

definition recompute ::
  "constants \<Rightarrow> (int \<rightharpoonup> nat list) \<Rightarrow> BeatmapSet \<Rightarrow> error + BeatmapSet" where
  "recompute c rankDates beatmapSet =
     (case getTime (rankDateEarly beatmapSet) of
        Inl e \<Rightarrow> Inl e
      | Inr early \<Rightarrow>
          (let key = roundMinutes c early True
           in case probability beatmapSet of
                None \<Rightarrow> Inr beatmapSet
              | Some _ \<Rightarrow>
                  (case getTime (rankDate beatmapSet) of
                     Inl e \<Rightarrow> Inl e
                   | Inr rd \<Rightarrow>
                       if early \<noteq> rd
                       then (let otherModes =
                                   map_option
                                     (\<lambda>counts. map (\<lambda>k. counts ! k)
                                        (filter (\<lambda>k. k \<noteq> mode_int (mode beatmapSet))
                                           [0..<length counts]))
                                     (rankDates key)
                             in Inr (beatmapSet\<lparr>probability :=
                                  Some (probabilityAfter c
                                          (real_of_int (intervalTimeDelta early)) otherModes)\<rparr>))
                       else Inr beatmapSet)))"

text \<open>A \<^verbatim>\<open>forEach\<close> or \<^verbatim>\<open>for .. of\<close> whose body may throw, over the entries in order.\<close>

fun forEach :: "('a \<Rightarrow> error + 'b) \<Rightarrow> 'a list \<Rightarrow> error + 'b list" where
  "forEach f [] = Inr []"
| "forEach f (x # xs) =
     (case f x of
        Inl e \<Rightarrow> Inl e
      | Inr y \<Rightarrow> (case forEach f xs of Inl e \<Rightarrow> Inl e | Inr ys \<Rightarrow> Inr (y # ys)))"

definition calcEarlyProbability ::
  "constants \<Rightarrow> BeatmapSet list list \<Rightarrow> error + BeatmapSet list list" where
  "calcEarlyProbability c qualifiedMaps =
     (case count_loop c (concat qualifiedMaps) Map.empty of
        Inl e \<Rightarrow> Inl e
      | Inr rankDates \<Rightarrow> forEach (forEach (recompute c rankDates)) qualifiedMaps)"

text \<open>
  \<^verbatim>\<open>adjustAllRankDates\<close>: the loop over the modes 0..3, then the cross-mode pass. The state
  is the pair of the two arrays of arrays; \<^verbatim>\<open>qualifiedMaps[mode]\<close> or \<^verbatim>\<open>rankedMaps[mode]\<close>
  out of range is \<^verbatim>\<open>undefined\<close>, and spreading it throws.
\<close>

fun modes_loop ::
  "constants \<Rightarrow> BeatmapSet list list \<Rightarrow> BeatmapSet list list \<Rightarrow> nat list \<Rightarrow>
   error + (BeatmapSet list list \<times> BeatmapSet list list)" where
  "modes_loop c qualifiedMaps rankedMaps [] = Inr (qualifiedMaps, rankedMaps)"
| "modes_loop c qualifiedMaps rankedMaps (m # rest) =
     (if m < length qualifiedMaps \<and> m < length rankedMaps
      then (case adjustRankDates c (qualifiedMaps ! m) (rankedMaps ! m) 0 of
              Inl e \<Rightarrow> Inl e
            | Inr combined \<Rightarrow>
                modes_loop c
                  (qualifiedMaps[m := drop (length (rankedMaps ! m)) combined])
                  (rankedMaps[m := take (length (rankedMaps ! m)) combined])
                  rest)
      else Inl TypeError)"

definition adjustAllRankDates ::
  "constants \<Rightarrow> BeatmapSet list list \<Rightarrow> BeatmapSet list list \<Rightarrow>
   error + (BeatmapSet list list \<times> BeatmapSet list list)" where
  "adjustAllRankDates c qualifiedMaps rankedMaps =
     (case modes_loop c qualifiedMaps rankedMaps [0, 1, 2, 3] of
        Inl e \<Rightarrow> Inl e
      | Inr (qualifiedMaps', rankedMaps') \<Rightarrow>
          (case calcEarlyProbability c qualifiedMaps' of
             Inl e \<Rightarrow> Inl e
           | Inr qualifiedMaps'' \<Rightarrow> Inr (qualifiedMaps'', rankedMaps')))"

subsection \<open>Example data\<close>

text \<open>
  Modelled from the spec: \<^verbatim>\<open>constants.ts\<close> is not part of the sources. The values are
  those the spec gives (a day of 86400 s, an hour of 3600 s and a minute of 60 s, in the
  milliseconds the code adds to \<^verbatim>\<open>getTime()\<close>; an interval of 20 minutes, 3 sets per run,
  8 per day, 7 days of qualification, a split at 0.5). The spec gives no value for
  \<^verbatim>\<open>MAXIMUM_PENALTY_DAYS\<close>, \<^verbatim>\<open>DELAY_MIN\<close> and \<^verbatim>\<open>DELAY_MAX\<close>; the ones here serve the
  examples only: the general theorems hold for every record of constants that meets their
  hypotheses.
\<close>

definition example_constants :: constants where
  "example_constants =
     \<lparr>DAY = 86400000, HOUR = 3600000, MINUTE = 60000, RANK_INTERVAL = 20,
      RANK_PER_RUN = 3, RANK_PER_DAY = 8, MINIMUM_DAYS_FOR_RANK = 7,
      MAXIMUM_PENALTY_DAYS = 7, DELAY_MIN = 60, DELAY_MAX = 240, SPLIT = 0.5\<rparr>"

text \<open>A set as \<^verbatim>\<open>beatmapSetFromAPI\<close> builds it from a qualified set with one beatmap.\<close>

definition example_set :: BeatmapSet where
  "example_set =
     \<lparr>set_id = 1, queueDate = None, rankDate = None, rankDateEarly = None,
      artist = ''artist'', title = ''title'', mapper = ''mapper'', mapperId = 2,
      probability = None, unresolved = False,
      beatmaps = [\<lparr>beatmap_id = 10, ver = ''Hard'', spin = 0, sr = 3, len = 90,
                   beatmap_mode = Mode0\<rparr>],
      mode = Mode0, lastQualifiedDate = Some 0\<rparr>"

definition example_event :: "event_type \<Rightarrow> int \<Rightarrow> int \<Rightarrow> MapEvent" where
  "example_event ty t u =
     \<lparr>etype = ty, time = t, beatmapIds = [10], nominators = [5, 6], userId = u\<rparr>"

text \<open>
  A recent-ranked tail and a queue of one mode, both in the order the database query gives
  them: three ranked sets (one ranked 40 minutes before the boundary 1200000000, two ranked
  5 seconds after the next boundary, 1201200000) and two qualified sets without unresolved
  issues whose queue dates, 1 minute before and 5 minutes after the boundary 1200000000,
  lie in the past of the last two rankings. \<open>example_first\<close> and \<open>example_second\<close> are the two qualified sets as
  the projector leaves them.
\<close>

definition example_ranked :: "int \<Rightarrow> int \<Rightarrow> BeatmapSet" where
  "example_ranked i t = example_set\<lparr>set_id := i, rankDate := Some t, lastQualifiedDate := None\<rparr>"

definition example_qualified :: "int \<Rightarrow> int \<Rightarrow> BeatmapSet" where
  "example_qualified i q = example_set\<lparr>set_id := i, queueDate := Some q\<rparr>"

definition example_tail :: "BeatmapSet list" where
  "example_tail =
     [example_ranked 1 1197600000, example_ranked 2 1201205000, example_ranked 3 1201205000]"

definition example_queue :: "BeatmapSet list" where
  "example_queue = [example_qualified 4 1199940000, example_qualified 5 1200300000]"

definition example_first :: BeatmapSet where
  "example_first = example_qualified 4 1199940000
     \<lparr>rankDateEarly := Some 1199940000, probability := Some (Num 0),
      rankDate := Some 1200000000\<rparr>"

definition example_second :: BeatmapSet where
  "example_second = example_qualified 5 1200300000
     \<lparr>rankDateEarly := Some 1200000000, probability := Some (Num 0),
      rankDate := Some 1200000000\<rparr>"

text \<open>
  Two queues of one mode with an empty ranked tail: four sets with unresolved issues and
  the same queue date, and four sets without unresolved issues of which the last
  becomes eligible in the interval that the first three fill. \<open>example_busy_third\<close> is the
  second queue before the iteration for its last set.
\<close>

definition example_projected :: "BeatmapSet \<Rightarrow> int \<Rightarrow> int \<Rightarrow> BeatmapSet" where
  "example_projected b e r =
     b\<lparr>rankDateEarly := Some e, probability := Some (Num 0), rankDate := Some r\<rparr>"

definition example_waiting :: "int \<Rightarrow> int \<Rightarrow> BeatmapSet" where
  "example_waiting i q = example_set\<lparr>set_id := i, queueDate := Some q, unresolved := True\<rparr>"

definition example_waiting_queue :: "BeatmapSet list" where
  "example_waiting_queue =
     [example_waiting 1 1199940000, example_waiting 2 1199940000,
      example_waiting 3 1199940000, example_waiting 4 1199940000]"

definition example_waiting_result :: "BeatmapSet list" where
  "example_waiting_result =
     map (\<lambda>b. example_projected b 1199940000 1200000000) example_waiting_queue"

definition example_busy_queue :: "BeatmapSet list" where
  "example_busy_queue =
     [example_qualified 1 1199940000, example_qualified 2 1199940000,
      example_qualified 3 1199940000, example_qualified 4 1200060000]"

definition example_busy_result :: "BeatmapSet list" where
  "example_busy_result =
     [example_projected (example_qualified 1 1199940000) 1199940000 1200000000,
      example_projected (example_qualified 2 1199940000) 1199940000 1200000000,
      example_projected (example_qualified 3 1199940000) 1199940000 1200000000,
      example_projected (example_qualified 4 1200060000) 1201200000 1201200000]"

definition example_busy_third :: "BeatmapSet list" where
  "example_busy_third = take 3 example_busy_result @ [example_qualified 4 1200060000]"

subsection \<open>Notions used in the statements\<close>

text \<open>The number of sets the other modes contribute: the sum of \<^verbatim>\<open>otherModes\<close>, 0 when absent.\<close>

definition total_others :: "nat list option \<Rightarrow> nat" where
  "total_others otherModes = (case otherModes of None \<Rightarrow> 0 | Some om \<Rightarrow> sum_list om)"

text \<open>
  Two sets that differ at most in the three fields the projector assigns:
  \<^verbatim>\<open>rankDateEarly\<close>, \<^verbatim>\<open>rankDate\<close> and \<^verbatim>\<open>probability\<close>.
\<close>

definition sameButProjection :: "BeatmapSet \<Rightarrow> BeatmapSet \<Rightarrow> bool" where
  "sameButProjection a b =
     (b = a\<lparr>rankDateEarly := rankDateEarly b, rankDate := rankDate b,
            probability := probability b\<rparr>)"

text \<open>
  The notions of the per-run cap. \<open>le_queue\<close> orders two sets by queue date (where both
  have one); \<open>filteredMaps_at combined i\<close> is the array \<^verbatim>\<open>filteredMaps\<close> of iteration \<open>i\<close>;
  \<open>bucket_count c X sets\<close> is the number of sets without unresolved issues whose rank date
  lies in the interval that starts at \<open>X\<close>. \<open>projected\<close> (the qualified sets without
  unresolved issues that the loop has passed) and \<open>cap_inv\<close> (the invariant of the loop)
  serve the proof.
\<close>

definition le_queue :: "BeatmapSet \<Rightarrow> BeatmapSet \<Rightarrow> bool" where
  "le_queue a b =
     (case queueDate a of
        None \<Rightarrow> True
      | Some x \<Rightarrow> (case queueDate b of None \<Rightarrow> True | Some y \<Rightarrow> x \<le> y))"

definition rankTime :: "BeatmapSet \<Rightarrow> int" where
  "rankTime b = (case rankDate b of None \<Rightarrow> 0 | Some r \<Rightarrow> r)"

definition filteredMaps_at :: "BeatmapSet list \<Rightarrow> nat \<Rightarrow> BeatmapSet list" where
  "filteredMaps_at combined i = rev (filter (\<lambda>b. \<not> unresolved b) (take i combined))"

definition bucket_count :: "constants \<Rightarrow> int \<Rightarrow> BeatmapSet list \<Rightarrow> nat" where
  "bucket_count c X sets =
     length (filter (\<lambda>b. \<not> unresolved b \<and> rankFloor c b = Inr X) sets)"

definition projected :: "BeatmapSet list \<Rightarrow> nat \<Rightarrow> nat \<Rightarrow> BeatmapSet list" where
  "projected combined n i = filter (\<lambda>b. \<not> unresolved b) (drop n (take i combined))"

definition cap_inv :: "constants \<Rightarrow> nat \<Rightarrow> BeatmapSet list \<Rightarrow> nat \<Rightarrow> bool" where
  "cap_inv c n combined i =
     (n \<le> i \<and> i \<le> length combined \<and>
      (\<forall>b \<in> set (projected combined n i).
         \<exists>r qd. rankDate b = Some r \<and> RANK_INTERVAL c * MINUTE c dvd r \<and> queueDate b = Some qd) \<and>
      sorted (map rankTime (projected combined n i)) \<and>
      (\<forall>X. count_list (map rankTime (projected combined n i)) X \<le> RANK_PER_RUN c) \<and>
      (i \<le> RANK_PER_RUN c \<longrightarrow>
         (\<forall>b \<in> set (projected combined n i).
            \<exists>qd. queueDate b = Some qd \<and> rankDate b = Some (roundMinutes c (max qd 0) False))) \<and>
      (\<forall>b \<in> set (projected combined n i). \<forall>b' \<in> set (drop i combined). le_queue b b') \<and>
      sorted_wrt le_queue (drop i combined))"

section \<open>Verification\<close>

subsection \<open>Interval time delta\<close>

text \<open>
  Claim C6: for every date \<open>d\<close>, \<^verbatim>\<open>intervalTimeDelta(d)\<close> is (UTC minutes of \<open>d\<close> mod
  \<^verbatim>\<open>RANK_INTERVAL\<close>) times 60 plus the seconds of \<open>d\<close>, for the configured
  \<^verbatim>\<open>RANK_INTERVAL\<close>. The code takes the minutes modulo the literal 20 and never reads
  \<^verbatim>\<open>RANK_INTERVAL\<close>, the constant its neighbour \<^verbatim>\<open>roundMinutes\<close> uses: at 00:25:00 UTC
  it returns 300, where an interval of 30 minutes asks for 1500.
\<close>

theorem intervalTimeDelta_literal_20:
  "intervalTimeDelta 1500000 = 300 \<and>
   (getUTCMinutes 1500000 mod RANK_INTERVAL (example_constants\<lparr>RANK_INTERVAL := 30\<rparr>)) * 60
     + getSeconds 1500000 = 1500"
  by (simp add: intervalTimeDelta_def getUTCMinutes_def getSeconds_def)

subsection \<open>Event-log reducer\<close>

lemma replay_nominations:
  "list_all (\<lambda>e. etype e = Nominate) noms \<Longrightarrow>
   foldl (replay_event c ids) st noms =
     st\<lparr>nominators_local := nominators_local st @ map userId noms\<rparr>"
  by (induction noms arbitrary: st) (simp_all add: replay_event_def)

lemma sameIds_mset: "mset a = mset b \<Longrightarrow> sameIds a b"
  unfolding sameIds_def list_all_iff
  by (metis mset_eq_setD size_mset)

lemma diffsAdded_subset: "set new \<subseteq> set old \<Longrightarrow> \<not> diffsAdded new old"
  unfolding diffsAdded_def by (auto simp: filter_empty_conv)

lemma penalty_floor:
  "(0::int) < d \<Longrightarrow> \<lfloor>real_of_int (10 * d) / real_of_int d / 7\<rfloor> = (1::int)"
  by (simp add: floor_eq_iff)

text \<open>
  Claim C1: when the replay ends with \<^verbatim>\<open>queuedAt = null\<close> for a set reported as
  qualified, \<^verbatim>\<open>setQueueDate\<close> fails with \<^verbatim>\<open>EventLogInconsistent\<close> and assigns no queue
  date. The code asserts that \<^verbatim>\<open>queuedAt\<close> is not \<^verbatim>\<open>null\<close> when it computes the queue date
  (\<^verbatim>\<open>queuedAt!\<close>), but it does not check it. For a qualified set whose log holds one
  nomination and no \<^verbatim>\<open>qualify\<close>, the replay ends with \<^verbatim>\<open>queuedAt = null\<close>, the function
  returns normally, and the set is given the queue date \<^verbatim>\<open>null + 7 * DAY\<close>, the eighth
  day of 1970.
\<close>

theorem setQueueDate_without_qualify:
  "queuedAt (replay_events example_constants (map beatmap_id (beatmaps example_set))
      (rev [example_event Nominate 1000 5])) = None \<and>
   setQueueDate example_constants example_set [example_event Nominate 1000 5] =
     example_set\<lparr>queueDate := Some 604800000\<rparr>"
  by (simp add: setQueueDate_def replay_events_def replay_event_def replay_init_def
      example_event_def example_constants_def example_set_def)

text \<open>
  Claim C3 (scenario S2): the log is a \<^verbatim>\<open>qualify\<close> at \<open>t0\<close>, a \<^verbatim>\<open>disqualify\<close> three days
  later, nominations by exactly the nominators recorded on the disqualification (in any
  order), and a \<^verbatim>\<open>qualify\<close> at \<open>t1\<close>, ten days after the disqualification; the set has no
  beatmap id beyond those of the disqualification. With \<^verbatim>\<open>MINIMUM_DAYS_FOR_RANK = 7\<close> (and a
  penalty cap of at least one day, as S2 supposes) the replay ends with
  \<open>queuedAt = t1 - 2 * DAY\<close> and the set is given \<open>queueDate = t1 + 5 * DAY\<close>.
\<close>

theorem requalify_same_nominators:
  assumes day: "0 < DAY c"
    and mn: "MINIMUM_DAYS_FOR_RANK c = 7"
    and mx: "1 \<le> MAXIMUM_PENALTY_DAYS c"
    and q0: "etype e0 = Qualify"
    and dq: "etype dq = Disqualify" "time dq = time e0 + 3 * DAY c"
    and noms: "list_all (\<lambda>e. etype e = Nominate) noms"
      "mset (map userId noms) = mset (nominators dq)"
    and q1: "etype e1 = Qualify" "time e1 = time dq + 10 * DAY c"
    and ids: "set (map beatmap_id (beatmaps b)) \<subseteq> set (beatmapIds dq)"
  shows "queuedAt (replay_events c (map beatmap_id (beatmaps b)) (e0 # dq # noms @ [e1]))
           = Some (time e1 - 2 * DAY c) \<and>
         queueDate (setQueueDate c b (rev (e0 # dq # noms @ [e1])))
           = Some (time e1 + 5 * DAY c)"
proof -
  define ids where "ids = map beatmap_id (beatmaps b)"
  define s0 where "s0 = replay_init\<lparr>queuedAt := Some (time e0)\<rparr>"
  define s1 where "s1 = replay_init\<lparr>queuedAt := Some (time e0),
    lastDisqualifiedEvent := Some dq, previousQueueDuration := 3 * DAY c\<rparr>"
  define s2 where "s2 = replay_init\<lparr>queuedAt := Some (time e0),
    lastDisqualifiedEvent := Some dq, previousQueueDuration := 3 * DAY c,
    nominators_local := map userId noms\<rparr>"
  have st0: "replay_event c ids replay_init e0 = s0"
    using q0 day mn
    by (simp add: s0_def replay_event_def replay_qualify_def replay_init_def Let_def)
  have st1: "replay_event c ids s0 dq = s1"
    using dq by (simp add: s0_def s1_def replay_event_def replay_init_def Let_def)
  have st2: "foldl (replay_event c ids) s1 noms = s2"
    by (simp add: replay_nominations[OF noms(1)] s1_def s2_def replay_init_def)
  have same: "sameIds (nominators dq) (map userId noms)"
    using noms(2) by (intro sameIds_mset) simp
  have nodiff: "\<not> diffsAdded ids (beatmapIds dq)"
    using ids unfolding ids_def by (rule diffsAdded_subset)
  have pen: "min \<lfloor>real_of_int (time e1 - time dq) / real_of_int (DAY c) / 7\<rfloor>
      (MAXIMUM_PENALTY_DAYS c) = 1"
    using penalty_floor[OF day] mx q1(2) by simp
  have adj: "min (3 * DAY c) ((MINIMUM_DAYS_FOR_RANK c - 1) * DAY c) = 3 * DAY c"
    using day mn by simp
  have st3: "queuedAt (replay_event c ids s2 e1) = Some (time e1 - 2 * DAY c)"
    using q1(1) same nodiff pen adj
    by (simp add: s2_def replay_event_def replay_qualify_def replay_init_def Let_def)
  have a: "queuedAt (replay_events c ids (e0 # dq # noms @ [e1])) = Some (time e1 - 2 * DAY c)"
    by (simp add: replay_events_def st0 st1 st2 st3)
  then have "queueDate (setQueueDate c b (rev (e0 # dq # noms @ [e1])))
      = Some (time e1 + 5 * DAY c)"
    using mn unfolding ids_def by (simp add: setQueueDate_def Let_def)
  with a show ?thesis unfolding ids_def by simp
qed

theorem requalify_same_nominators_witness:
  "queuedAt (replay_events example_constants (map beatmap_id (beatmaps example_set))
      [example_event Qualify 0 0, example_event Disqualify 259200000 9,
       example_event Nominate 300000000 6, example_event Nominate 400000000 5,
       example_event Qualify 1123200000 0]) = Some 950400000 \<and>
   queueDate (setQueueDate example_constants example_set
      (rev [example_event Qualify 0 0, example_event Disqualify 259200000 9,
            example_event Nominate 300000000 6, example_event Nominate 400000000 5,
            example_event Qualify 1123200000 0])) = Some 1555200000"
proof -
  have "mset (map userId [example_event Nominate 300000000 6, example_event Nominate 400000000 5])
      = mset (nominators (example_event Disqualify 259200000 9))"
    by (simp add: example_event_def)
  from requalify_same_nominators[of example_constants "example_event Qualify 0 0"
      "example_event Disqualify 259200000 9"
      "[example_event Nominate 300000000 6, example_event Nominate 400000000 5]"
      "example_event Qualify 1123200000 0" example_set, OF _ _ _ _ _ _ _ this]
  show ?thesis
    by (simp add: example_constants_def example_event_def example_set_def)
qed

subsection \<open>Uniform-sum distribution\<close>

text \<open>
  In exact arithmetic. The alternating sum \<open>\<Sum>k\<le>n. (-1)^k * (n choose k) * (x - k)^m\<close> vanishes for \<open>m < n\<close> and is
  \<open>n!\<close> for \<open>m = n\<close>, whatever \<open>x\<close> is; the loops of \<^verbatim>\<open>perm\<close>, \<^verbatim>\<open>binomial\<close> and
  \<^verbatim>\<open>uniformSumCDF\<close> compute the products and the sum they stand for.
\<close>

lemma diff_sum_rec:
  "(\<Sum>k\<le>Suc n. (-1) ^ k * real (Suc n choose k) * (x - real k) ^ Suc m) =
     x * (\<Sum>k\<le>Suc n. (-1) ^ k * real (Suc n choose k) * (x - real k) ^ m) +
     real (Suc n) * (\<Sum>k\<le>n. (-1) ^ k * real (n choose k) * (x - 1 - real k) ^ m)"
proof -
  have "(\<Sum>k\<le>Suc n. (-1) ^ k * real (Suc n choose k) * (x - real k) ^ Suc m) =
      (\<Sum>k\<le>Suc n. x * ((-1) ^ k * real (Suc n choose k) * (x - real k) ^ m) -
         (-1) ^ k * real (Suc n choose k) * real k * (x - real k) ^ m)"
    by (rule sum.cong[OF refl]) (simp add: algebra_simps)
  then have split: "(\<Sum>k\<le>Suc n. (-1) ^ k * real (Suc n choose k) * (x - real k) ^ Suc m) =
      x * (\<Sum>k\<le>Suc n. (-1) ^ k * real (Suc n choose k) * (x - real k) ^ m) -
      (\<Sum>k\<le>Suc n. (-1) ^ k * real (Suc n choose k) * real k * (x - real k) ^ m)"
    by (simp only: sum_subtractf sum_distrib_left)
  have "(\<Sum>k\<le>Suc n. (-1) ^ k * real (Suc n choose k) * real k * (x - real k) ^ m) =
      (\<Sum>k\<le>n. (-1) ^ Suc k * real (Suc n choose Suc k) * real (Suc k) * (x - real (Suc k)) ^ m)"
    by (subst sum.atMost_Suc_shift) simp
  also have "\<dots> = (\<Sum>k\<le>n. - (real (Suc n) * ((-1) ^ k * real (n choose k) * (x - 1 - real k) ^ m)))"
  proof (rule sum.cong[OF refl])
    fix k
    have e: "real (Suc n choose Suc k) * real (Suc k) = real (Suc n) * real (n choose k)"
      using Suc_times_binomial[of k n] by (metis mult.commute of_nat_mult)
    have d: "x - real (Suc k) = x - 1 - real k" by simp
    have "(-1) ^ Suc k * real (Suc n choose Suc k) * real (Suc k) * (x - real (Suc k)) ^ m =
        - ((-1) ^ k * (real (Suc n choose Suc k) * real (Suc k)) * (x - real (Suc k)) ^ m)"
      by (simp add: mult.assoc)
    also have "\<dots> = - ((-1) ^ k * (real (Suc n) * real (n choose k)) * (x - 1 - real k) ^ m)"
      by (simp only: e d)
    also have "\<dots> = - (real (Suc n) * ((-1) ^ k * real (n choose k) * (x - 1 - real k) ^ m))"
      by (simp only: mult_ac)
    finally show "(-1) ^ Suc k * real (Suc n choose Suc k) * real (Suc k) * (x - real (Suc k)) ^ m =
        - (real (Suc n) * ((-1) ^ k * real (n choose k) * (x - 1 - real k) ^ m))" .
  qed
  also have "\<dots> = - (real (Suc n) * (\<Sum>k\<le>n. (-1) ^ k * real (n choose k) * (x - 1 - real k) ^ m))"
    by (simp add: sum_negf sum_distrib_left)
  finally show ?thesis using split by simp
qed

lemma diff_sum_vanish:
  "(m < n \<longrightarrow> (\<Sum>k\<le>n. (-1) ^ k * real (n choose k) * (x - real k) ^ m) = 0) \<and>
   (\<Sum>k\<le>m. (-1) ^ k * real (m choose k) * (x - real k) ^ m) = fact m"
proof (induction m arbitrary: n x)
  case 0
  have "0 < n \<Longrightarrow> (\<Sum>k\<le>n. (-1) ^ k * real (n choose k)) = 0"
    using choose_alternating_sum[of n, where 'a = real] by simp
  then show ?case by simp
next
  case (Suc m)
  have low: "\<And>n x. m < n \<Longrightarrow> (\<Sum>k\<le>n. (-1) ^ k * real (n choose k) * (x - real k) ^ m) = 0"
    using Suc.IH by blast
  have top: "\<And>x. (\<Sum>k\<le>m. (-1) ^ k * real (m choose k) * (x - real k) ^ m) = fact m"
    using Suc.IH by blast
  have a: "(\<Sum>k\<le>n. (-1) ^ k * real (n choose k) * (x - real k) ^ Suc m) = 0" if lt: "Suc m < n"
  proof -
    obtain n' where n: "n = Suc n'" using lt by (cases n) auto
    have "m < Suc n'" "m < n'" using lt n by auto
    then show ?thesis
      unfolding n diff_sum_rec by (simp only: low mult_zero_right add_0)
  qed
  have b: "(\<Sum>k\<le>Suc m. (-1) ^ k * real (Suc m choose k) * (x - real k) ^ Suc m) = fact (Suc m)"
    unfolding diff_sum_rec by (simp only: low[of "Suc m", OF lessI] top) simp
  from a b show ?case by blast
qed



lemma perm_loop_prod: "perm_loop n k i p = p * (\<Prod>j = i..<k. real n - real j)"
proof (induction n k i p rule: perm_loop.induct)
  case (1 n k i p)
  show ?case
  proof (cases "i < k")
    case True
    then show ?thesis
      using "1.IH"[OF True] by (subst perm_loop.simps) (simp add: prod.atLeast_Suc_lessThan mult.assoc)
  next
    case False
    then show ?thesis by (subst perm_loop.simps) simp
  qed
qed

lemma prod_descending: "k \<le> n \<Longrightarrow> (\<Prod>j = 0..<k. real n - real j) = fact n / fact (n - k)"
proof (induction k)
  case 0
  then show ?case by simp
next
  case (Suc k)
  then have "fact (n - k) = (real n - real k) * fact (n - Suc k)"
    by (metis Suc_diff_Suc Suc_le_lessD fact_Suc of_nat_diff less_imp_le_nat of_nat_mult)
  with Suc show ?case by simp
qed

lemma factorial_fact: "factorial n = fact n"
  by (simp add: factorial_def perm_def perm_loop_prod prod_descending)

lemma binomial_loop_prod:
  "binomial_loop n k i p = p * (\<Prod>j = i..<k. (real n - real j) / (real k - real j))"
proof (induction n k i p rule: binomial_loop.induct)
  case (1 n k i p)
  show ?case
  proof (cases "i < k")
    case True
    then show ?thesis
      using "1.IH"[OF True] by (subst binomial_loop.simps) (simp add: prod.atLeast_Suc_lessThan mult.assoc)
  next
    case False
    then show ?thesis by (subst binomial_loop.simps) simp
  qed
qed

lemma binomial_choose: "binomial_js n k = real (n choose k)"
proof (cases "k \<le> n")
  case True
  have "(\<Prod>j = 0..<k. (real n - real j) / (real k - real j)) =
      (\<Prod>j = 0..<k. real n - real j) / (\<Prod>j = 0..<k. real k - real j)"
    by (simp add: prod_dividef)
  also have "\<dots> = (fact n / fact (n - k)) / fact k"
    using True by (simp add: prod_descending)
  also have "\<dots> = real (n choose k)"
    using True by (simp add: binomial_fact)
  finally show ?thesis
    using True by (simp add: binomial_js_def binomial_loop_prod)
next
  case False
  then show ?thesis by (simp add: binomial_js_def)
qed

lemma cdf_loop_sum:
  "cdf_loop n x k acc =
     acc + (\<Sum>j = k..n. (-1) ^ j * binomial_js n j * sgn_js (x - real j) * (x - real j) ^ n)"
proof (induction n x k acc rule: cdf_loop.induct)
  case (1 n x k acc)
  show ?case
  proof (cases "k \<le> n")
    case True
    then show ?thesis
      using "1.IH"[OF True] by (subst cdf_loop.simps) (simp add: sum.atLeast_Suc_atMost)
  next
    case False
    then show ?thesis by (subst cdf_loop.simps) simp
  qed
qed

lemma cdf_loop_total:
  "cdf_loop n x 0 0 = (\<Sum>j\<le>n. (-1) ^ j * real (n choose j) * sgn_js (x - real j) * (x - real j) ^ n)"
  by (simp add: cdf_loop_sum binomial_choose atLeast0AtMost)

lemma cdf_at_zero: "0 < n \<Longrightarrow> uniformSumCDF n 0 = 0"
proof -
  assume n: "0 < n"
  have "(\<Sum>j\<le>n. (-1) ^ j * real (n choose j) * sgn_js (0 - real j) * (0 - real j) ^ n) =
        (\<Sum>j\<le>n. - ((-1) ^ j * real (n choose j) * (0 - real j) ^ n))"
  proof (rule sum.cong[OF refl])
    fix j
    show "(-1) ^ j * real (n choose j) * sgn_js (0 - real j) * (0 - real j) ^ n =
          - ((-1) ^ j * real (n choose j) * (0 - real j) ^ n)"
      using n by (cases "j = 0") (simp_all add: sgn_js_def)
  qed
  also have "\<dots> = - fact n"
    using diff_sum_vanish[of n n 0] by (simp add: sum_negf)
  finally have "cdf_loop n 0 0 0 = - fact n"
    by (simp add: cdf_loop_total)
  then show ?thesis
    by (simp add: uniformSumCDF_def factorial_fact)
qed

lemma cdf_at_n: "0 < n \<Longrightarrow> uniformSumCDF n (real n) = 1"
proof -
  assume n: "0 < n"
  have "(\<Sum>j\<le>n. (-1) ^ j * real (n choose j) * sgn_js (real n - real j) * (real n - real j) ^ n) =
        (\<Sum>j\<le>n. (-1) ^ j * real (n choose j) * (real n - real j) ^ n)"
  proof (rule sum.cong[OF refl])
    fix j
    assume "j \<in> {..n}"
    then show "(-1) ^ j * real (n choose j) * sgn_js (real n - real j) * (real n - real j) ^ n =
          (-1) ^ j * real (n choose j) * (real n - real j) ^ n"
      using n by (cases "j = n") (simp_all add: sgn_js_def)
  qed
  also have "\<dots> = fact n"
    using diff_sum_vanish[of n n "real n"] by simp
  finally have "cdf_loop n (real n) 0 0 = fact n"
    by (simp add: cdf_loop_total)
  then show ?thesis
    by (simp add: uniformSumCDF_def factorial_fact)
qed


text \<open>
  So in exact arithmetic the signed-power sum gives 0 at \<open>x = 0\<close> and 1 at \<open>x = n\<close> for every
  positive \<open>n\<close>: what the code returns there differs from 0 and 1 by rounding error alone.
\<close>

lemma uniformSumCDF_exact_boundaries:
  "0 < n \<Longrightarrow> (x \<le> 0 \<longrightarrow> uniformSumCDF n x = 0) \<and> (real n \<le> x \<longrightarrow> uniformSumCDF n x = 1)"
proof -
  assume n: "0 < n"
  have "uniformSumCDF n x = 0" if "x \<le> 0"
    using that cdf_at_zero[OF n] by (cases "x = 0") (simp_all add: uniformSumCDF_def)
  moreover have "uniformSumCDF n x = 1" if "real n \<le> x"
  proof (cases "x = real n")
    case True then show ?thesis using cdf_at_n[OF n] by simp
  next
    case False
    then have "real n < x" "\<not> x < 0" using that by auto
    then show ?thesis by (simp add: uniformSumCDF_def)
  qed
  ultimately show ?thesis by blast
qed

text \<open>
  In double precision. The rounding \<open>double\<close> is the one of the doubles: \<open>ilog2\<close> is the
  binary exponent, \<open>round_even\<close> returns a nearest integer, and \<open>double x\<close> is within half a
  unit in the last place of \<open>x\<close>.
\<close>

lemma pow2_pos: "0 < pow2 e"
  by (simp add: pow2_def)

lemma pow2_neg: "0 \<le> k \<Longrightarrow> pow2 (- k) = 1 / 2 ^ nat k"
  by (cases "k = 0") (simp_all add: pow2_def)

lemma bitlen_pos: "0 < z \<Longrightarrow> 1 \<le> bitlen z"
  by (metis add_cancel_left_left bitlen_eq_zero_iff bitlen_nonneg less_le_not_le nle_le
      zle_add1_eq_le)

lemma bitlen_real_bounds:
  assumes "0 < z"
  shows "(2::real) ^ nat (bitlen z - 1) \<le> real_of_int z"
    and "real_of_int z + 1 \<le> 2 ^ nat (bitlen z)"
proof -
  from bitlen_bounds[OF assms]
  have lo: "2 ^ nat (bitlen z - 1) \<le> z" and hi: "z + 1 \<le> 2 ^ nat (bitlen z)"
    by auto
  have "real_of_int (2 ^ nat (bitlen z - 1)) \<le> real_of_int z"
    using lo by (simp only: of_int_le_iff)
  then show "(2::real) ^ nat (bitlen z - 1) \<le> real_of_int z" by simp
  have "real_of_int (z + 1) \<le> real_of_int (2 ^ nat (bitlen z))"
    using hi by (simp only: of_int_le_iff)
  then show "real_of_int z + 1 \<le> 2 ^ nat (bitlen z)" by simp
qed

lemma ilog2_bounds:
  assumes "0 < x"
  shows "pow2 (ilog2 x) \<le> x \<and> x < pow2 (ilog2 x + 1)"
proof (cases "1 \<le> x")
  case True
  define z where "z = \<lfloor>x\<rfloor>"
  have z: "0 < z" using True by (simp add: z_def)
  have b: "1 \<le> bitlen z" using z by (rule bitlen_pos)
  have r: "real_of_int z \<le> x" "x < real_of_int z + 1" by (simp_all add: z_def)
  have il: "ilog2 x = bitlen z - 1" using True by (simp add: ilog2_def z_def)
  have p1: "pow2 (ilog2 x) = 2 ^ nat (bitlen z - 1)" using b il by (simp add: pow2_def)
  have p2: "pow2 (ilog2 x + 1) = 2 ^ nat (bitlen z)" using b il by (simp add: pow2_def)
  show ?thesis unfolding p1 p2 using r bitlen_real_bounds[OF z] by linarith
next
  case False
  define c where "c = \<lceil>1 / x\<rceil> - 1"
  have x1: "1 < 1 / x" using assms False by simp
  then have c: "0 < c" unfolding c_def by linarith
  have b: "1 \<le> bitlen c" using c by (rule bitlen_pos)
  have r: "real_of_int c < 1 / x" "1 / x \<le> real_of_int c + 1" unfolding c_def by linarith+
  have up: "1 / x \<le> 2 ^ nat (bitlen c)" and dn: "2 ^ nat (bitlen c - 1) < 1 / x"
    using r bitlen_real_bounds[OF c] by linarith+
  have e: "ilog2 x = - bitlen c" using False by (simp add: ilog2_def c_def)
  have "1 / 2 ^ nat (bitlen c) \<le> x"
    using up assms by (simp add: field_simps)
  moreover have "x < 1 / 2 ^ nat (bitlen c - 1)"
    using dn assms by (simp add: field_simps)
  moreover have "pow2 (- bitlen c) = 1 / 2 ^ nat (bitlen c)"
    using b by (intro pow2_neg) simp
  moreover have "pow2 (- bitlen c + 1) = 1 / 2 ^ nat (bitlen c - 1)"
    using b pow2_neg[of "bitlen c - 1"] by simp
  ultimately show ?thesis unfolding e by simp
qed

lemma round_even_nearest: "\<bar>real_of_int (round_even y) - y\<bar> \<le> 1 / 2"
  unfolding round_even_def Let_def by (auto simp: abs_if) linarith+

lemma double_nearest:
  assumes "x \<noteq> 0"
  shows "\<bar>double x - x\<bar> \<le> pow2 (max (ilog2 \<bar>x\<bar> - 52) (- 1074)) / 2"
proof -
  define e where "e = max (ilog2 \<bar>x\<bar> - 52) (- 1074)"
  have p: "0 < pow2 e" by (rule pow2_pos)
  have "double x - x = (real_of_int (round_even (x / pow2 e)) - x / pow2 e) * pow2 e"
    using assms p by (simp add: double_def e_def Let_def algebra_simps)
  then have "\<bar>double x - x\<bar> = \<bar>real_of_int (round_even (x / pow2 e)) - x / pow2 e\<bar> * pow2 e"
    using p by (simp add: abs_mult)
  also have "\<dots> \<le> 1 / 2 * pow2 e"
    using round_even_nearest[of "x / pow2 e"] p by (intro mult_right_mono) simp_all
  finally show ?thesis by (simp add: e_def)
qed

text \<open>
  The code at the boundary points, evaluated operation by operation. Up to \<open>n = 6\<close> both
  boundary values come out exact. For \<open>n = 7\<close> the loop of \<^verbatim>\<open>binomial(7, 5)\<close> ends one unit
  in the last place below 21, and the sum keeps the error.
\<close>

lemmas double_eval =
  uniformSumCDF_double_def cdf_loop_double.simps factorial_double_def perm_double_def
  perm_loop_double.simps pow_double_def sgn_js_def binomial_double_def
  binomial_loop_double.simps double_def ilog2_def round_even_def pow2_def compute_bitlen Let_def

lemma binomial_double_7_5: "binomial_double 7 5 = 21 - 1 / 2 ^ 48"
  by (simp add: double_eval)

lemma uniformSumCDF_double_1: "uniformSumCDF_double 1 0 = 0" "uniformSumCDF_double 1 1 = 1"
  by (simp_all add: double_eval)

lemma uniformSumCDF_double_2: "uniformSumCDF_double 2 0 = 0" "uniformSumCDF_double 2 2 = 1"
  by (simp_all add: double_eval)

lemma uniformSumCDF_double_3: "uniformSumCDF_double 3 0 = 0" "uniformSumCDF_double 3 3 = 1"
  by (simp_all add: double_eval)

lemma uniformSumCDF_double_4: "uniformSumCDF_double 4 0 = 0" "uniformSumCDF_double 4 4 = 1"
  by (simp_all add: double_eval)

lemma uniformSumCDF_double_5: "uniformSumCDF_double 5 0 = 0" "uniformSumCDF_double 5 5 = 1"
  by (simp_all add: double_eval)

lemma uniformSumCDF_double_6: "uniformSumCDF_double 6 0 = 0" "uniformSumCDF_double 6 6 = 1"
  by (simp_all add: double_eval)

text \<open>
  Claim C7, as stated: for every positive \<open>n\<close>, \<^verbatim>\<open>uniformSumCDF(n, x)\<close> is 0 for every
  \<open>x \<le> 0\<close> and 1 for every \<open>x \<ge> n\<close>, and at the boundary points \<open>x = 0\<close> and \<open>x = n\<close>, which
  the branches \<^verbatim>\<open>x < 0\<close> and \<^verbatim>\<open>x > n\<close> do not cover, the signed-power sum gives exactly 0
  and 1. It does not for \<open>n = 7\<close>: \<^verbatim>\<open>uniformSumCDF(7, 0)\<close> is \<open>13 / 2^49\<close>, about
  \<open>2.3 * 10^-14\<close>, and not 0.
\<close>

theorem uniformSumCDF_boundary_counterexample:
  "uniformSumCDF_double 7 0 = 13 / 2 ^ 49"
  by (simp add: double_eval)

text \<open>
  Claim C7, amended: for every positive \<open>n \<le> 6\<close>, \<^verbatim>\<open>uniformSumCDF(n, x)\<close> is 0 for every
  \<open>x \<le> 0\<close> and 1 for every \<open>x \<ge> n\<close>; at the boundary points \<open>x = 0\<close> and \<open>x = n\<close> the
  signed-power sum, computed in doubles, gives exactly 0 and 1.
\<close>

theorem uniformSumCDF_double_boundaries:
  assumes "0 < n" and "n \<le> 6"
  shows "(x \<le> 0 \<longrightarrow> uniformSumCDF_double n x = 0) \<and>
         (real n \<le> x \<longrightarrow> uniformSumCDF_double n x = 1)"
proof -
  consider "n = 1" | "n = 2" | "n = 3" | "n = 4" | "n = 5" | "n = 6"
    using assms by linarith
  then have b: "uniformSumCDF_double n 0 = 0 \<and> uniformSumCDF_double n (real n) = 1"
  proof cases
    case 1 then show ?thesis using uniformSumCDF_double_1 by simp
  next
    case 2 then show ?thesis using uniformSumCDF_double_2 by simp
  next
    case 3 then show ?thesis using uniformSumCDF_double_3 by simp
  next
    case 4 then show ?thesis using uniformSumCDF_double_4 by simp
  next
    case 5 then show ?thesis using uniformSumCDF_double_5 by simp
  next
    case 6 then show ?thesis using uniformSumCDF_double_6 by simp
  qed
  have "uniformSumCDF_double n x = 0" if "x \<le> 0"
    using that b by (cases "x = 0") (simp_all add: uniformSumCDF_double_def)
  moreover have "uniformSumCDF_double n x = 1" if "real n \<le> x"
  proof (cases "x = real n")
    case True then show ?thesis using b by simp
  next
    case False
    then have "real n < x" "\<not> x < 0" using that by auto
    then show ?thesis by (simp add: uniformSumCDF_double_def)
  qed
  ultimately show ?thesis by blast
qed

theorem uniformSumCDF_double_boundaries_witness:
  "uniformSumCDF_double 4 0 = 0 \<and> uniformSumCDF_double 4 4 = 1 \<and>
   uniformSumCDF_double 4 (-1) = 0 \<and> uniformSumCDF_double 4 5 = 1"
  using uniformSumCDF_double_boundaries[of 4 0] uniformSumCDF_double_boundaries[of 4 4]
    uniformSumCDF_double_boundaries[of 4 "-1"] uniformSumCDF_double_boundaries[of 4 5]
  by simp

subsection \<open>Probability engine\<close>

lemma permSum_loop_direct:
  assumes "\<forall>m v. memo m = Some v \<longrightarrow> v = direct_term c s m"
  shows "(\<forall>m v. fst (permSum_loop c s pos ps memo ms) m = Some v \<longrightarrow> v = direct_term c s m) \<and>
         snd (permSum_loop c s pos ps memo ms) =
           foldl (\<lambda>modeSum permSum. modeSum + direct_term c s (pos + permSum)) ms ps"
  using assms
proof (induction ps arbitrary: memo ms)
  case Nil
  then show ?case by simp
next
  case (Cons p ps)
  show ?case
  proof (cases "memo (pos + p)")
    case None
    let ?v = "direct_term c s (pos + p)"
    have ok: "\<forall>m v. (memo(pos + p \<mapsto> ?v)) m = Some v \<longrightarrow> v = direct_term c s m"
      using Cons.prems by simp
    have step: "permSum_loop c s pos (p # ps) memo ms =
        permSum_loop c s pos ps (memo(pos + p \<mapsto> ?v)) (ms + ?v)"
      using None by (simp add: Let_def direct_term_def)
    show ?thesis
      unfolding step foldl_Cons by (rule Cons.IH[OF ok])
  next
    case (Some v)
    then have v: "v = direct_term c s (pos + p)" using Cons.prems by blast
    have step: "permSum_loop c s pos (p # ps) memo ms =
        permSum_loop c s pos ps memo (ms + direct_term c s (pos + p))"
      using Some v by simp
    show ?thesis
      unfolding step foldl_Cons by (rule Cons.IH[OF Cons.prems])
  qed
qed

lemma pos_loop_direct:
  "\<forall>m v. memo m = Some v \<longrightarrow> v = direct_term c s m \<Longrightarrow>
   pos_loop c s om pos memo acc =
     foldl (\<lambda>acc pos. add_average acc (direct_modeSum c s pos (permSums_at pos om))
                         (length (permSums_at pos om)))
       acc [pos..<5]"
proof (induction c s om pos memo acc rule: pos_loop.induct)
  case (1 c s om pos memo acc)
  show ?case
  proof (cases "pos \<le> 4")
    case True
    let ?r = "permSum_loop c s pos (permSums_at pos om) memo 0"
    note d = permSum_loop_direct[OF "1.prems", of pos "permSums_at pos om" 0]
    have ih: "pos_loop c s om (Suc pos) (fst ?r)
        (add_average acc (snd ?r) (length (permSums_at pos om))) =
      foldl (\<lambda>acc pos. add_average acc (direct_modeSum c s pos (permSums_at pos om))
                         (length (permSums_at pos om)))
        (add_average acc (snd ?r) (length (permSums_at pos om))) [Suc pos..<5]"
      using d by (intro "1.IH"[OF True refl refl]) blast
    have up: "[pos..<5] = pos # [Suc pos..<5]"
      using True by (simp add: upt_conv_Cons)
    show ?thesis
      using True d ih
      by (subst pos_loop.simps) (simp add: Let_def up direct_modeSum_def)
  next
    case False
    then show ?thesis by (subst pos_loop.simps) simp
  qed
qed

lemma positions: "[Suc 0..<5] = [1, 2, 3, 4]"
  by (simp add: upt_conv_Cons)


lemma memo_equiv_aux:
  "probabilityAfter c seconds otherModes = probabilityAfter_unmemoized c seconds otherModes"
  by (simp add: probabilityAfter_def probabilityAfter_unmemoized_def pos_loop_direct positions)

text \<open>
  Claim C9: \<^verbatim>\<open>probabilityAfter\<close> with its memo table, shared by the four positions, returns
  the value of the definition without a table, in which every term is
  \<open>1 - uniformSumCDF m ((seconds - m * DELAY_MIN) / (DELAY_MAX - DELAY_MIN))\<close> for
  \<open>m = pos + permSum\<close>: an entry of the table depends on its key and on \<open>seconds\<close> only.
\<close>

theorem probabilityAfter_memo_equiv:
  "probabilityAfter c seconds otherModes = probabilityAfter_unmemoized c seconds otherModes"
  by (simp add: probabilityAfter_def probabilityAfter_unmemoized_def pos_loop_direct positions)

lemma uniformSumCDF_below: "x < 0 \<Longrightarrow> uniformSumCDF n x = 0"
  by (simp add: uniformSumCDF_def)

lemma uniformSumCDF_above: "real n < x \<Longrightarrow> uniformSumCDF n x = 1"
proof -
  assume a: "real n < x"
  have "0 \<le> real n" by simp
  with a have "\<not> x < 0" by linarith
  with a show ?thesis by (simp add: uniformSumCDF_def)
qed

lemma direct_term_early:
  assumes "DELAY_MIN c < DELAY_MAX c" "s < real m * DELAY_MIN c"
  shows "direct_term c s m = 1"
proof -
  have "(s - real m * DELAY_MIN c) / (DELAY_MAX c - DELAY_MIN c) < 0"
    using assms by (simp add: divide_neg_pos)
  then show ?thesis by (simp add: direct_term_def uniformSumCDF_below)
qed

lemma direct_term_late:
  assumes "DELAY_MIN c < DELAY_MAX c" "real m * DELAY_MAX c < s"
  shows "direct_term c s m = 0"
proof -
  have "real m * (DELAY_MAX c - DELAY_MIN c) < s - real m * DELAY_MIN c"
    using assms(2) by (simp add: algebra_simps)
  then have "real m < (s - real m * DELAY_MIN c) / (DELAY_MAX c - DELAY_MIN c)"
    using assms(1) by (simp add: pos_less_divide_eq)
  then show ?thesis by (simp add: direct_term_def uniformSumCDF_above)
qed

lemma foldl_plus_sum_list: "foldl (\<lambda>a b. a + b) a xs = a + sum_list (xs :: nat list)"
  by (induction xs arbitrary: a) simp_all

lemma pair_le_sum_list:
  "i < length xs \<Longrightarrow> j < length xs \<Longrightarrow> i \<noteq> j \<Longrightarrow> xs ! i + xs ! j \<le> sum_list (xs :: nat list)"
proof (induction xs arbitrary: i j)
  case Nil
  then show ?case by simp
next
  case (Cons x xs)
  show ?case
  proof (cases i)
    case 0
    then obtain j' where j: "j = Suc j'" using Cons.prems by (cases j) auto
    then have "xs ! j' \<le> sum_list xs" using Cons.prems by (simp add: member_le_sum_list)
    with 0 j show ?thesis by simp
  next
    case (Suc i')
    show ?thesis
    proof (cases j)
      case 0
      have "xs ! i' \<le> sum_list xs" using Cons.prems Suc by (simp add: member_le_sum_list)
      with 0 Suc show ?thesis by simp
    next
      case (Suc j')
      with \<open>i = Suc i'\<close> Cons.prems have "xs ! i' + xs ! j' \<le> sum_list xs"
        by (intro Cons.IH) auto
      with Suc \<open>i = Suc i'\<close> show ?thesis by simp
    qed
  qed
qed

lemma permSums_bound:
  "p \<in> set (permSums_at pos otherModes) \<Longrightarrow> p \<le> total_others otherModes"
proof (cases otherModes)
  case None
  then show "p \<in> set (permSums_at pos otherModes) \<Longrightarrow> ?thesis"
    by (simp add: permSums_at_def total_others_def)
next
  case (Some om)
  assume p: "p \<in> set (permSums_at pos otherModes)"
  consider "pos = 2" | "pos = 3" | "pos = 4" | "pos \<noteq> 2" "pos \<noteq> 3" "pos \<noteq> 4" by blast
  then show ?thesis
  proof cases
    case 1
    with p Some show ?thesis
      by (simp add: permSums_at_def total_others_def member_le_sum_list)
  next
    case 2
    with p Some obtain i j where "i < length om" "j < length om" "j \<noteq> i" "p = om ! i + om ! j"
      by (auto simp: permSums_at_def permutations2_def foldl_plus_sum_list)
    with Some show ?thesis
      using pair_le_sum_list[of i om j] by (simp add: total_others_def)
  next
    case 3
    with p Some show ?thesis
      by (simp add: permSums_at_def total_others_def foldl_plus_sum_list)
  next
    case 4
    with p Some show ?thesis
      by (simp add: permSums_at_def total_others_def)
  qed
qed

lemma permutations2_nonempty: "2 \<le> length xs \<Longrightarrow> permutations2 xs \<noteq> []"
proof
  assume l: "2 \<le> length xs" and e: "permutations2 xs = []"
  from e have "\<forall>i\<in>set [0..<length xs].
      map (\<lambda>j. [xs ! i, xs ! j]) (filter (\<lambda>j. j \<noteq> i) [0..<length xs]) = []"
    by (simp add: permutations2_def)
  moreover have "0 \<in> set [0..<length xs]" using l by (cases xs) auto
  ultimately have "filter (\<lambda>j. j \<noteq> 0) [0..<length xs] = []"
    by (metis map_is_Nil_conv)
  then have "\<forall>j\<in>set [0..<length xs]. \<not> j \<noteq> 0"
    by (simp only: filter_empty_conv)
  moreover have "1 \<in> set [0..<length xs]" using l by auto
  ultimately show False by (metis zero_neq_one)
qed

lemma permSums_nonempty:
  assumes "case otherModes of None \<Rightarrow> True | Some om \<Rightarrow> 2 \<le> length om"
  shows "permSums_at pos otherModes \<noteq> []"
proof (cases otherModes)
  case None
  then show ?thesis by (simp add: permSums_at_def)
next
  case (Some om)
  with assms have l: "2 \<le> length om" by simp
  then have "om \<noteq> []" by auto
  with l Some show ?thesis
    by (simp add: permSums_at_def permutations2_nonempty)
qed

lemma direct_modeSum_const:
  "\<forall>p \<in> set ps. direct_term c s (pos + p) = v \<Longrightarrow>
   foldl (\<lambda>modeSum permSum. modeSum + direct_term c s (pos + permSum)) a ps =
     a + real (length ps) * v"
  by (induction ps arbitrary: a) (simp_all add: algebra_simps)

lemma average_const:
  assumes "ps \<noteq> []" "\<forall>p \<in> set ps. direct_term c s (pos + p) = v"
  shows "add_average (Num a) (direct_modeSum c s pos ps) (length ps) = Num (a + v)"
  using direct_modeSum_const[OF assms(2), of 0] assms(1)
  by (simp add: add_average_def direct_modeSum_def)

lemma unmemoized_const:
  assumes ne: "case otherModes of None \<Rightarrow> True | Some om \<Rightarrow> 2 \<le> length om"
    and v: "\<And>pos p. 1 \<le> pos \<Longrightarrow> pos \<le> 4 \<Longrightarrow> p \<in> set (permSums_at pos otherModes) \<Longrightarrow>
               direct_term c s (pos + p) = v"
  shows "probabilityAfter_unmemoized c s otherModes = floor5 (Num (4 * v))"
proof -
  have a: "add_average (Num a) (direct_modeSum c s pos (permSums_at pos otherModes))
      (length (permSums_at pos otherModes)) = Num (a + v)" if "1 \<le> pos" "pos \<le> 4" for a pos
    using that v by (intro average_const permSums_nonempty[OF ne]) blast
  have a1: "add_average (Num 0) (direct_modeSum c s 1 (permSums_at 1 otherModes))
      (length (permSums_at 1 otherModes)) = Num (0 + v)"
    by (rule a) simp_all
  have a2: "add_average (Num (0 + v)) (direct_modeSum c s 2 (permSums_at 2 otherModes))
      (length (permSums_at 2 otherModes)) = Num (0 + v + v)"
    by (rule a) simp_all
  have a3: "add_average (Num (0 + v + v)) (direct_modeSum c s 3 (permSums_at 3 otherModes))
      (length (permSums_at 3 otherModes)) = Num (0 + v + v + v)"
    by (rule a) simp_all
  have a4: "add_average (Num (0 + v + v + v)) (direct_modeSum c s 4 (permSums_at 4 otherModes))
      (length (permSums_at 4 otherModes)) = Num (0 + v + v + v + v)"
    by (rule a) simp_all
  have "0 + v + v + v + v = 4 * v" by simp
  then show ?thesis
    unfolding probabilityAfter_unmemoized_def foldl_Cons foldl_Nil a1 a2 a3 a4 by simp
qed

lemma scaled_lower:
  assumes "s < d" "s < real k * d" "1 \<le> m" "m \<le> k"
  shows "s < real m * (d::real)"
proof (cases "0 \<le> d")
  case True
  then have "d \<le> real m * d" using assms(3) by (simp add: mult_le_cancel_right1)
  with assms(1) show ?thesis by linarith
next
  case False
  then have "real k * d \<le> real m * d" using assms(4) by (simp add: mult_le_cancel_right)
  with assms(2) show ?thesis by linarith
qed

lemma scaled_upper:
  assumes "d < s" "real k * d < s" "1 \<le> m" "m \<le> k"
  shows "real m * (d::real) < s"
proof (cases "0 \<le> d")
  case True
  then have "real m * d \<le> real k * d" using assms(4) by (simp add: mult_le_cancel_right)
  with assms(2) show ?thesis by linarith
next
  case False
  then have "real m * d \<le> d" using assms(3) by (simp add: mult_le_cancel_right1)
  with assms(1) show ?thesis by linarith
qed

lemma probabilityAfter_limits_aux:
  assumes d: "DELAY_MIN c < DELAY_MAX c"
    and ne: "case otherModes of None \<Rightarrow> True | Some om \<Rightarrow> 2 \<le> length om"
  shows "(s < DELAY_MIN c \<and> s < real (4 + total_others otherModes) * DELAY_MIN c
            \<longrightarrow> probabilityAfter c s otherModes = Num 1) \<and>
         (DELAY_MAX c < s \<and> real (4 + total_others otherModes) * DELAY_MAX c < s
            \<longrightarrow> probabilityAfter c s otherModes = Num 0)"
proof (intro conjI impI)
  assume a: "s < DELAY_MIN c \<and> s < real (4 + total_others otherModes) * DELAY_MIN c"
  have "direct_term c s (pos + p) = 1"
    if "1 \<le> pos" "pos \<le> 4" "p \<in> set (permSums_at pos otherModes)" for pos p
  proof -
    have "pos + p \<le> 4 + total_others otherModes" "1 \<le> pos + p"
      using that permSums_bound[OF that(3)] by auto
    with a have "s < real (pos + p) * DELAY_MIN c"
      using scaled_lower[of s "DELAY_MIN c" "4 + total_others otherModes" "pos + p"] by blast
    with d show ?thesis by (rule direct_term_early)
  qed
  from unmemoized_const[OF ne this] show "probabilityAfter c s otherModes = Num 1"
    unfolding memo_equiv_aux by (simp add: floor5_def)
next
  assume a: "DELAY_MAX c < s \<and> real (4 + total_others otherModes) * DELAY_MAX c < s"
  have "direct_term c s (pos + p) = 0"
    if "1 \<le> pos" "pos \<le> 4" "p \<in> set (permSums_at pos otherModes)" for pos p
  proof -
    have "pos + p \<le> 4 + total_others otherModes" "1 \<le> pos + p"
      using that permSums_bound[OF that(3)] by auto
    with a have "real (pos + p) * DELAY_MAX c < s"
      using scaled_upper[of "DELAY_MAX c" s "4 + total_others otherModes" "pos + p"] by blast
    with d show ?thesis by (rule direct_term_late)
  qed
  from unmemoized_const[OF ne this] show "probabilityAfter c s otherModes = Num 0"
    unfolding memo_equiv_aux by (simp add: floor5_def)
qed

text \<open>
  Claim C2, as stated: \<^verbatim>\<open>probabilityAfter\<close> is 0 for every sufficiently negative argument
  and 1 for every sufficiently large one. The code has the two limits the other way
  round: a million seconds before the boundary it returns 1, a million seconds after it
  returns 0.
\<close>

theorem probabilityAfter_limits_counterexample:
  "probabilityAfter example_constants (-1000000) None = Num 1 \<and>
   probabilityAfter example_constants 1000000 None = Num 0"
proof -
  have d: "DELAY_MIN example_constants < DELAY_MAX example_constants"
    by (simp add: example_constants_def)
  have ne: "case None :: nat list option of None \<Rightarrow> True | Some om \<Rightarrow> 2 \<le> length om"
    by simp
  show ?thesis
    using probabilityAfter_limits_aux[OF d ne, of "-1000000"]
      probabilityAfter_limits_aux[OF d ne, of 1000000]
    by (simp add: example_constants_def total_others_def)
qed

text \<open>
  Claim C2, amended: with \<^verbatim>\<open>DELAY_MIN < DELAY_MAX\<close> and \<^verbatim>\<open>otherModes\<close> absent or of at least
  two counts, of sum \<open>T\<close>, \<^verbatim>\<open>probabilityAfter\<close> returns exactly 1 for every argument below
  both \<^verbatim>\<open>DELAY_MIN\<close> and \<open>(4 + T) * DELAY_MIN\<close>, and exactly 0 for every argument above both
  \<^verbatim>\<open>DELAY_MAX\<close> and \<open>(4 + T) * DELAY_MAX\<close>: \<open>probabilityAfter(-\<infinity>) = 1\<close> and
  \<open>probabilityAfter(+\<infinity>) = 0\<close>. It is the probability that the ranking of the mode's next
  map happens after the given offset.
\<close>

theorem probabilityAfter_limits:
  assumes "DELAY_MIN c < DELAY_MAX c"
    and "case otherModes of None \<Rightarrow> True | Some om \<Rightarrow> 2 \<le> length om"
  shows "(s < DELAY_MIN c \<and> s < real (4 + total_others otherModes) * DELAY_MIN c
            \<longrightarrow> probabilityAfter c s otherModes = Num 1) \<and>
         (DELAY_MAX c < s \<and> real (4 + total_others otherModes) * DELAY_MAX c < s
            \<longrightarrow> probabilityAfter c s otherModes = Num 0)"
  using assms by (rule probabilityAfter_limits_aux)

theorem probabilityAfter_limits_witness:
  "probabilityAfter example_constants (-1) (Some [1, 0, 2]) = Num 1 \<and>
   probabilityAfter example_constants 3000 (Some [1, 0, 2]) = Num 0"
proof -
  have d: "DELAY_MIN example_constants < DELAY_MAX example_constants"
    by (simp add: example_constants_def)
  have ne: "case Some [1, 0, 2::nat] of None \<Rightarrow> True | Some om \<Rightarrow> 2 \<le> length om"
    by simp
  show ?thesis
    using probabilityAfter_limits[OF d ne, of "-1"] probabilityAfter_limits[OF d ne, of 3000]
    by (simp add: example_constants_def total_others_def)
qed

subsection \<open>Cross-mode probability\<close>

lemma count_loop_absent:
  "count_loop c sets rankDates = Inr rankDates' \<Longrightarrow>
   (rankDates' k = None) = (rankDates k = None \<and> (\<forall>s \<in> set sets. bucketKey c s \<noteq> Inr k))"
proof (induction sets arbitrary: rankDates)
  case Nil
  then show ?case by simp
next
  case (Cons s sets)
  from Cons.prems obtain key where key: "bucketKey c s = Inr key"
    by (cases "bucketKey c s") auto
  define rd where "rd = rankDates(key \<mapsto>
      (case rankDates key of None \<Rightarrow> [0, 0, 0, 0] | Some a \<Rightarrow> a)
        [mode_int (mode s) :=
          (case rankDates key of None \<Rightarrow> [0, 0, 0, 0] | Some a \<Rightarrow> a) ! mode_int (mode s) + 1])"
  from Cons.prems key have "count_loop c sets rd = Inr rankDates'"
    by (simp add: Let_def rd_def)
  from Cons.IH[OF this] show ?case
    using key by (auto simp: rd_def)
qed

text \<open>
  Claim C10: the second pass of \<^verbatim>\<open>calcEarlyProbability\<close> does not fail on a missing
  bucket. For a set with a non-null probability and \<open>rankDateEarly \<noteq> rankDate\<close>, when no
  set of any mode was counted under the key \<open>floor(rankDateEarly)\<close> in the first pass (as
  when the set's own key was its \<open>rankDate\<close>), the probability is recomputed with the
  other-mode counts absent.
\<close>

theorem recompute_absent_bucket:
  assumes "count_loop c (concat qualifiedMaps) Map.empty = Inr rankDates"
    and "\<forall>s \<in> set (concat qualifiedMaps). bucketKey c s \<noteq> Inr (roundMinutes c e True)"
    and "rankDateEarly b = Some e" "rankDate b = Some r" "probability b = Some p" "e \<noteq> r"
  shows "recompute c rankDates b =
    Inr (b\<lparr>probability := Some (probabilityAfter c (real_of_int (intervalTimeDelta e)) None)\<rparr>)"
proof -
  have "rankDates (roundMinutes c e True) = None"
    using count_loop_absent[OF assms(1), of "roundMinutes c e True"] assms(2) by simp
  then show ?thesis
    using assms(3-6) by (simp add: recompute_def getTime_def Let_def)
qed

theorem recompute_absent_bucket_witness:
  "calcEarlyProbability example_constants [[example_first], [], [], []] =
     Inr [[example_first\<lparr>probability := Some (probabilityAfter example_constants 1140 None)\<rparr>],
          [], [], []]"
proof -
  have k: "bucketKey example_constants example_first = Inr 1200000000"
    by (simp add: bucketKey_def aboveSplit_def example_first_def example_qualified_def example_set_def example_constants_def getTime_def)
  have m: "mode example_first = Mode0"
    by (simp add: example_first_def example_qualified_def example_set_def)
  have r: "roundMinutes example_constants 1199940000 True = 1198800000"
    by (simp add: roundMinutes_def example_constants_def)
  have first: "count_loop example_constants (concat [[example_first], [], [], []]) Map.empty =
      Inr [1200000000 \<mapsto> [1, 0, 0, 0]]"
    by (simp add: k m)
  have no: "\<forall>s \<in> set (concat [[example_first], [], [], []]).
      bucketKey example_constants s \<noteq> Inr (roundMinutes example_constants 1199940000 True)"
    by (simp add: k r)
  have "recompute example_constants [1200000000 \<mapsto> [1, 0, 0, 0]] example_first =
      Inr (example_first\<lparr>probability :=
        Some (probabilityAfter example_constants (real_of_int (intervalTimeDelta 1199940000)) None)\<rparr>)"
  proof (rule recompute_absent_bucket[OF first no])
    show "rankDateEarly example_first = Some 1199940000"
      by (simp add: example_first_def example_qualified_def example_set_def)
    show "rankDate example_first = Some 1200000000"
      by (simp add: example_first_def example_qualified_def example_set_def)
    show "probability example_first = Some (Num 0)"
      by (simp add: example_first_def example_qualified_def example_set_def)
    show "(1199940000::int) \<noteq> 1200000000"
      by simp
  qed
  moreover have "intervalTimeDelta 1199940000 = 1140"
    by (simp add: intervalTimeDelta_def getUTCMinutes_def getSeconds_def)
  ultimately show ?thesis
    using first by (simp add: calcEarlyProbability_def)
qed

subsection \<open>Rank-date projector: an example run\<close>

lemma example_probability: "probabilityAfter example_constants 1140 None = Num 0"
proof -
  have d: "DELAY_MIN example_constants < DELAY_MAX example_constants"
    by (simp add: example_constants_def)
  have ne: "case None :: nat list option of None \<Rightarrow> True | Some om \<Rightarrow> 2 \<le> length om"
    by simp
  show ?thesis
    using probabilityAfter_limits_aux[OF d ne, of 1140]
    by (simp add: example_constants_def total_others_def)
qed

lemmas example_defs =
  example_tail_def example_queue_def example_ranked_def example_qualified_def
  example_first_def example_second_def example_set_def example_constants_def

lemmas step_defs =
  adjust_step_def projectDates_def compareDate_at_def perRunCap_def pullForward_def
  slotOverflow_def rankFloor_def element_def getTime_def roundMinutes_def Let_def
  intervalTimeDelta_def getUTCMinutes_def getSeconds_def

lemma example_step_first:
  "adjust_step example_constants 3 (example_tail @ example_queue) 3 =
     Inr (example_tail @ [example_first, example_qualified 5 1200300000])"
  using example_probability
  by (simp add: step_defs example_defs)

lemma example_step_second:
  "adjust_step example_constants 3
     (example_tail @ [example_first, example_qualified 5 1200300000]) 4 =
     Inr (example_tail @ [example_first, example_second])"
  by (simp add: step_defs example_defs)

lemma example_adjustRankDates:
  "adjustRankDates example_constants example_queue example_tail 0 =
     Inr (example_tail @ [example_first, example_second])"
proof -
  have l: "length example_tail = 3" "length (example_tail @ example_queue) = 5"
    by (simp_all add: example_tail_def example_queue_def)
  have u: "[3..<5] = [3, 4::nat]"
    by (simp add: upt_conv_Cons)
  show ?thesis
    unfolding adjustRankDates_def Let_def l
    by (simp add: u example_step_first example_step_second)
qed

lemma example_empty_mode: "adjustRankDates c [] [] 0 = Inr []"
  by (simp add: adjustRankDates_def)

lemma example_modes:
  "modes_loop example_constants [example_queue, [], [], []] [example_tail, [], [], []]
     [0, 1, 2, 3] =
   Inr ([[example_first, example_second], [], [], []], [example_tail, [], [], []])"
proof -
  have l: "length example_tail = 3"
    by (simp add: example_tail_def)
  show ?thesis
    by (simp add: example_adjustRankDates example_empty_mode l)
qed

lemma example_cross_mode:
  "calcEarlyProbability example_constants [[example_first, example_second], [], [], []] =
     Inr [[example_first, example_second], [], [], []]"
proof -
  have k1: "bucketKey example_constants example_first = Inr 1200000000"
    by (simp add: bucketKey_def aboveSplit_def getTime_def example_defs)
  have k2: "bucketKey example_constants example_second = Inr 1200000000"
    by (simp add: bucketKey_def aboveSplit_def getTime_def example_defs)
  have m: "mode example_first = Mode0" "mode example_second = Mode0"
    by (simp_all add: example_defs)
  have first: "count_loop example_constants
      (concat [[example_first, example_second], [], [], []]) Map.empty =
      Inr [1200000000 \<mapsto> [2, 0, 0, 0]]"
    by (simp add: k1 k2 m numeral_2_eq_2)
  have r1: "recompute example_constants [1200000000 \<mapsto> [2, 0, 0, 0]] example_first =
      Inr example_first"
    using example_probability
    by (simp add: recompute_def getTime_def roundMinutes_def intervalTimeDelta_def
        getUTCMinutes_def getSeconds_def Let_def example_defs)
  have r2: "recompute example_constants [1200000000 \<mapsto> [2, 0, 0, 0]] example_second =
      Inr example_second"
    by (simp add: recompute_def getTime_def Let_def example_defs)
  show ?thesis
    unfolding calcEarlyProbability_def first by (simp add: r1 r2)
qed

text \<open>
  Claim C4: after \<^verbatim>\<open>adjustAllRankDates\<close>, every qualified set has
  \<open>queueDate \<le> rankDateEarly \<le> rankDate\<close>. On the example the run completes, and the slot
  overflow branch (its \<^verbatim>\<open>else\<close> case, taken because the three preceding sets are not in
  one interval) rewrites both dates of the second qualified set to the boundary
  1200000000, five minutes before its queue date 1200300000.
\<close>

theorem early_before_queue:
  "adjustAllRankDates example_constants [example_queue, [], [], []] [example_tail, [], [], []] =
     Inr ([[example_first, example_second], [], [], []], [example_tail, [], [], []]) \<and>
   queueDate example_second = Some 1200300000 \<and>
   rankDateEarly example_second = Some 1200000000"
proof -
  have "adjustAllRankDates example_constants [example_queue, [], [], []]
      [example_tail, [], [], []] =
      Inr ([[example_first, example_second], [], [], []], [example_tail, [], [], []])"
    unfolding adjustAllRankDates_def example_modes by (simp add: example_cross_mode)
  then show ?thesis
    by (simp add: example_second_def example_qualified_def)
qed

subsection \<open>Rank-date projector: what is written\<close>

lemma sameBut_refl: "sameButProjection a a"
  by (simp add: sameButProjection_def)

lemma sameBut_trans:
  "sameButProjection a b \<Longrightarrow> sameButProjection b d \<Longrightarrow> sameButProjection a d"
  unfolding sameButProjection_def
  by (cases a, cases b, cases d) simp

lemma sameBut_update:
  "sameButProjection a b \<Longrightarrow>
   sameButProjection a (b\<lparr>rankDate := x, rankDateEarly := y, probability := z\<rparr>)"
  unfolding sameButProjection_def
  by (cases a, cases b) simp

lemma projectDates_frame:
  "projectDates c n combined i = Inr q \<Longrightarrow> sameButProjection (combined ! i) q"
  by (auto simp: projectDates_def Let_def sameButProjection_def getTime_def
      split: option.splits)

lemma pullForward_frame:
  "pullForward c f0 q = Inr q' \<Longrightarrow> sameButProjection q q'"
  by (auto simp: pullForward_def sameBut_refl sameBut_update split: option.splits sum.splits if_splits)

lemma overflow_shape:
  "(case E1 of
      Inl e \<Rightarrow> Inl e
    | Inr False \<Rightarrow> Inr q
    | Inr True \<Rightarrow>
        (case E2 of
           Inl e \<Rightarrow> Inl e
         | Inr same \<Rightarrow> (case R of Inl e \<Rightarrow> Inl e | Inr r0 \<Rightarrow> Inr (F same r0)))) = Inr q' \<Longrightarrow>
   q' = q \<or> (\<exists>same r0. q' = F same r0)"
  by (auto split: sum.splits bool.splits)

lemma slotOverflow_frame:
  assumes "slotOverflow c filteredMaps f0 q = Inr q'"
  shows "sameButProjection q q'"
proof -
  from assms[unfolded slotOverflow_def Let_def]
  have "q' = q \<or> (\<exists>same r0. q' =
      q\<lparr>rankDate := Some (if same then r0 + RANK_INTERVAL c * MINUTE c else r0),
        rankDateEarly := Some (if same then r0 + RANK_INTERVAL c * MINUTE c else r0),
        probability := Some (Num 0)\<rparr>)"
    by (rule overflow_shape)
  then show ?thesis
    using sameBut_refl[of q] sameBut_update[OF sameBut_refl, of q] by auto
qed

lemma perRunCap_frame:
  assumes "perRunCap c combined i q = Inr q'"
  shows "sameButProjection q q'"
proof -
  let ?f = "rev (filter (\<lambda>beatmapSet. \<not> unresolved beatmapSet) (take i combined))"
  from assms obtain f0 where f0: "element ?f 0 = Inr f0"
    unfolding perRunCap_def Let_def by (cases "element ?f 0") simp_all
  with assms obtain q1 where q1: "pullForward c f0 q = Inr q1"
    unfolding perRunCap_def Let_def by (cases "pullForward c f0 q") simp_all
  with assms f0 have "slotOverflow c ?f f0 q1 = Inr q'"
    unfolding perRunCap_def Let_def by simp
  with q1 show ?thesis
    by (blast intro: sameBut_trans pullForward_frame slotOverflow_frame)
qed

lemma adjust_step_frame:
  assumes "adjust_step c n combined i = Inr combined'"
  shows "\<exists>q'. combined' = combined[i := q'] \<and> sameButProjection (combined ! i) q'"
proof -
  from assms obtain q where q: "projectDates c n combined i = Inr q"
    by (auto simp: adjust_step_def split: sum.splits)
  note f = projectDates_frame[OF q]
  show ?thesis
  proof (cases "i \<ge> RANK_PER_RUN c \<and> \<not> unresolved q")
    case True
    with assms q obtain q' where q': "perRunCap c combined i q = Inr q'"
      "combined' = combined[i := q']"
      by (auto simp: adjust_step_def split: sum.splits)
    with f show ?thesis
      by (blast intro: sameBut_trans perRunCap_frame)
  next
    case False
    with assms q have "combined' = combined[i := q]"
      by (auto simp: adjust_step_def)
    with f show ?thesis by blast
  qed
qed

lemma adjust_loop_frame:
  "adjust_loop c n combined is = Inr combined' \<Longrightarrow>
   length combined' = length combined \<and>
   (\<forall>j < length combined.
      (j \<notin> set is \<longrightarrow> combined' ! j = combined ! j) \<and>
      sameButProjection (combined ! j) (combined' ! j))"
proof (induction "is" arbitrary: combined)
  case Nil
  then show ?case by (simp add: sameBut_refl)
next
  case (Cons i rest)
  from Cons.prems obtain mid where mid: "adjust_step c n combined i = Inr mid"
    and rest: "adjust_loop c n mid rest = Inr combined'"
    by (auto split: sum.splits)
  from adjust_step_frame[OF mid] obtain q' where
    q': "mid = combined[i := q']" "sameButProjection (combined ! i) q'"
    by blast
  note ih = Cons.IH[OF rest]
  have len: "length combined' = length combined"
    using ih q'(1) by simp
  have "(j \<notin> set (i # rest) \<longrightarrow> combined' ! j = combined ! j) \<and>
        sameButProjection (combined ! j) (combined' ! j)" if j: "j < length combined" for j
  proof -
    have jm: "j < length mid" using j q'(1) by simp
    from ih jm have a: "j \<notin> set rest \<longrightarrow> combined' ! j = mid ! j"
      and b: "sameButProjection (mid ! j) (combined' ! j)"
      by blast+
    have m: "sameButProjection (combined ! j) (mid ! j)"
      using q' j by (cases "j = i") (simp_all add: sameBut_refl)
    have "j \<noteq> i \<Longrightarrow> mid ! j = combined ! j"
      using q'(1) by simp
    with a m b show ?thesis
      by (auto intro: sameBut_trans)
  qed
  with len show ?case by blast
qed

lemma adjustRankDates_frame:
  assumes "adjustRankDates c qualifiedMaps rankedMaps start = Inr combined"
  shows "length combined = length rankedMaps + length qualifiedMaps \<and>
         take (length rankedMaps + start) combined =
           take (length rankedMaps + start) (rankedMaps @ qualifiedMaps) \<and>
         (\<forall>j < length qualifiedMaps.
            sameButProjection (qualifiedMaps ! j) (combined ! (length rankedMaps + j)))"
proof -
  let ?n = "length rankedMaps"
  let ?all = "rankedMaps @ qualifiedMaps"
  from assms have "adjust_loop c ?n ?all [?n + start ..< length ?all] = Inr combined"
    by (simp add: adjustRankDates_def Let_def)
  note f = adjust_loop_frame[OF this]
  then have len: "length combined = ?n + length qualifiedMaps" by simp
  have "take (?n + start) combined = take (?n + start) ?all"
  proof (rule nth_equalityI)
    show "length (take (?n + start) combined) = length (take (?n + start) ?all)"
      using len by simp
  next
    fix j assume "j < length (take (?n + start) combined)"
    then have j: "j < ?n + start" "j < length ?all" using len by simp_all
    then have "j \<notin> set [?n + start ..< length ?all]" by simp
    with f j have "combined ! j = ?all ! j" by blast
    with j(1) show "take (?n + start) combined ! j = take (?n + start) ?all ! j"
      by (simp only: nth_take)
  qed
  moreover have "sameButProjection (qualifiedMaps ! j) (combined ! (?n + j))"
    if "j < length qualifiedMaps" for j
  proof -
    from that have "?n + j < length ?all" by simp
    with f have "sameButProjection (?all ! (?n + j)) (combined ! (?n + j))" by blast
    then show ?thesis by (simp add: nth_append)
  qed
  ultimately show ?thesis using len by blast
qed

lemma adjustRankDates_frame0:
  assumes "adjustRankDates c qualifiedMaps rankedMaps 0 = Inr combined"
  shows "take (length rankedMaps) combined = rankedMaps \<and>
         list_all2 sameButProjection qualifiedMaps (drop (length rankedMaps) combined)"
proof -
  note f = adjustRankDates_frame[OF assms]
  then have "take (length rankedMaps) combined = rankedMaps" by simp
  moreover have "list_all2 sameButProjection qualifiedMaps (drop (length rankedMaps) combined)"
    using f by (simp add: list_all2_conv_all_nth)
  ultimately show ?thesis by blast
qed

lemma sameBut_lists_refl: "list_all2 (list_all2 sameButProjection) qs qs"
  by (simp add: list_all2_refl sameBut_refl)

lemma sameBut_lists_trans:
  "list_all2 (list_all2 sameButProjection) qs qs1 \<Longrightarrow>
   list_all2 (list_all2 sameButProjection) qs1 qs2 \<Longrightarrow>
   list_all2 (list_all2 sameButProjection) qs qs2"
proof (erule list_all2_trans[rotated], assumption)
  fix a b d :: "BeatmapSet list"
  assume "list_all2 sameButProjection a b" "list_all2 sameButProjection b d"
  then show "list_all2 sameButProjection a d"
    by (rule list_all2_trans[rotated]) (rule sameBut_trans)
qed

lemma modes_loop_frame:
  "modes_loop c qs rs ms = Inr (qs', rs') \<Longrightarrow>
   rs' = rs \<and> list_all2 (list_all2 sameButProjection) qs qs'"
proof (induction ms arbitrary: qs rs)
  case Nil
  then show ?case by (simp add: sameBut_lists_refl)
next
  case (Cons m ms)
  from Cons.prems have m: "m < length qs" "m < length rs"
    by (auto split: if_splits)
  with Cons.prems obtain combined where
    a: "adjustRankDates c (qs ! m) (rs ! m) 0 = Inr combined"
    and rest: "modes_loop c (qs[m := drop (length (rs ! m)) combined])
        (rs[m := take (length (rs ! m)) combined]) ms = Inr (qs', rs')"
    by (auto split: sum.splits)
  note f = adjustRankDates_frame0[OF a]
  then have r: "rs[m := take (length (rs ! m)) combined] = rs"
    by (simp add: list_update_id)
  have "list_all2 (list_all2 sameButProjection) (qs[m := qs ! m])
      (qs[m := drop (length (rs ! m)) combined])"
    using f by (intro list_all2_update_cong sameBut_lists_refl) blast
  then have q: "list_all2 (list_all2 sameButProjection) qs
      (qs[m := drop (length (rs ! m)) combined])"
    by (simp only: list_update_id)
  from Cons.IH[OF rest] r q show ?case
    by (auto intro: sameBut_lists_trans)
qed

lemma forEach_all2:
  "forEach f xs = Inr ys \<Longrightarrow> (\<And>x y. f x = Inr y \<Longrightarrow> R x y) \<Longrightarrow> list_all2 R xs ys"
proof (induction xs arbitrary: ys)
  case Nil
  then show ?case by simp
next
  case (Cons x xs)
  from Cons.prems(1) obtain y ys' where "f x = Inr y" "forEach f xs = Inr ys'" "ys = y # ys'"
    by (auto split: sum.splits)
  with Cons.IH[of ys'] Cons.prems(2) show ?case by simp
qed

lemma recompute_shape:
  "(case G of
      Inl e \<Rightarrow> Inl e
    | Inr early \<Rightarrow>
        (case P of
           None \<Rightarrow> Inr b
         | Some x \<Rightarrow>
             (case H of
                Inl e \<Rightarrow> Inl e
              | Inr rd \<Rightarrow> if C early rd then Inr (F early) else Inr b))) = Inr b' \<Longrightarrow>
   b' = b \<or> (\<exists>early. b' = F early)"
  by (auto split: sum.splits option.splits if_splits)

lemma recompute_frame:
  assumes "recompute c rankDates b = Inr b'"
  shows "sameButProjection b b'"
proof -
  from assms[unfolded recompute_def Let_def]
  have "b' = b \<or> (\<exists>early. b' = b\<lparr>probability :=
      Some (probabilityAfter c (real_of_int (intervalTimeDelta early))
        (map_option (\<lambda>counts. map (\<lambda>k. counts ! k)
           (filter (\<lambda>k. k \<noteq> mode_int (mode b)) [0..<length counts]))
           (rankDates (roundMinutes c early True))))\<rparr>)"
    by (rule recompute_shape)
  then show ?thesis
    by (auto simp: sameButProjection_def)
qed

lemma calcEarlyProbability_frame:
  assumes "calcEarlyProbability c qs = Inr qs'"
  shows "list_all2 (list_all2 sameButProjection) qs qs'"
proof -
  from assms obtain rankDates where
    "forEach (forEach (recompute c rankDates)) qs = Inr qs'"
    by (auto simp: calcEarlyProbability_def split: sum.splits)
  then show ?thesis
    by (rule forEach_all2) (erule forEach_all2, erule recompute_frame)
qed

text \<open>
  Claim C8: the projector never mutates an entry of \<^verbatim>\<open>rankedMaps\<close>. After
  \<^verbatim>\<open>adjustRankDates\<close> with \<open>start = 0\<close> the first \<^verbatim>\<open>rankedMaps.length\<close> entries of \<^verbatim>\<open>combined\<close>
  are the ranked sets as they were, and every qualified set differs from what it was at
  most in \<^verbatim>\<open>rankDateEarly\<close>, \<^verbatim>\<open>rankDate\<close> and \<^verbatim>\<open>probability\<close>; after \<^verbatim>\<open>adjustAllRankDates\<close> the
  same holds for the ranked and qualified sets of every mode.
\<close>

theorem projector_frame:
  "(adjustRankDates c qualifiedMaps rankedMaps 0 = Inr combined \<longrightarrow>
      take (length rankedMaps) combined = rankedMaps \<and>
      list_all2 sameButProjection qualifiedMaps (drop (length rankedMaps) combined)) \<and>
   (adjustAllRankDates c allQualified allRanked = Inr (allQualified', allRanked') \<longrightarrow>
      allRanked' = allRanked \<and>
      list_all2 (list_all2 sameButProjection) allQualified allQualified')"
proof (intro conjI impI)
  assume "adjustRankDates c qualifiedMaps rankedMaps 0 = Inr combined"
  from adjustRankDates_frame0[OF this]
  show "take (length rankedMaps) combined = rankedMaps"
    and "list_all2 sameButProjection qualifiedMaps (drop (length rankedMaps) combined)"
    by blast+
next
  assume a: "adjustAllRankDates c allQualified allRanked = Inr (allQualified', allRanked')"
  then obtain mid where
    m: "modes_loop c allQualified allRanked [0, 1, 2, 3] = Inr (mid, allRanked')"
    and e: "calcEarlyProbability c mid = Inr allQualified'"
    by (auto simp: adjustAllRankDates_def split: sum.splits)
  from modes_loop_frame[OF m] calcEarlyProbability_frame[OF e]
  show "allRanked' = allRanked"
    and "list_all2 (list_all2 sameButProjection) allQualified allQualified'"
    by (blast intro: sameBut_lists_trans)+
qed

theorem projector_frame_witness:
  "take (length example_tail) (example_tail @ [example_first, example_second]) = example_tail \<and>
   list_all2 sameButProjection example_queue
     (drop (length example_tail) (example_tail @ [example_first, example_second])) \<and>
   list_all2 (list_all2 sameButProjection) [example_queue, [], [], []]
     [[example_first, example_second], [], [], []]"
proof -
  have "adjustAllRankDates example_constants [example_queue, [], [], []]
      [example_tail, [], [], []] =
      Inr ([[example_first, example_second], [], [], []], [example_tail, [], [], []])"
    unfolding adjustAllRankDates_def example_modes by (simp add: example_cross_mode)
  with example_adjustRankDates
    projector_frame[of example_constants example_queue example_tail
      "example_tail @ [example_first, example_second]"
      "[example_queue, [], [], []]" "[example_tail, [], [], []]"
      "[[example_first, example_second], [], [], []]" "[example_tail, [], [], []]"]
  show ?thesis by blast
qed

subsection \<open>Rank-date projector: the per-run cap\<close>

lemma roundMinutes_dvd: "RANK_INTERVAL c * MINUTE c dvd roundMinutes c m d"
  by (simp add: roundMinutes_def)

lemma roundMinutes_floor_le:
  "0 < RANK_INTERVAL c * MINUTE c \<Longrightarrow> roundMinutes c m True \<le> m"
proof -
  assume g: "0 < RANK_INTERVAL c * MINUTE c"
  let ?g = "RANK_INTERVAL c * MINUTE c"
  have "m div ?g * ?g = m - m mod ?g" by (simp add: minus_mod_eq_div_mult)
  moreover have "0 \<le> m mod ?g" using g by simp
  ultimately show ?thesis by (simp add: roundMinutes_def)
qed

lemma roundMinutes_ceil_ge:
  "0 < RANK_INTERVAL c * MINUTE c \<Longrightarrow> m \<le> roundMinutes c m False"
proof -
  assume g: "0 < RANK_INTERVAL c * MINUTE c"
  let ?g = "RANK_INTERVAL c * MINUTE c"
  have "(- m) div ?g * ?g = - m - (- m) mod ?g" by (simp add: minus_mod_eq_div_mult)
  moreover have "0 \<le> (- m) mod ?g" using g by simp
  ultimately show ?thesis by (simp add: roundMinutes_def)
qed

lemma roundMinutes_floor_grid:
  "RANK_INTERVAL c * MINUTE c dvd m \<Longrightarrow> roundMinutes c m True = m"
  by (auto simp: roundMinutes_def)

lemma roundMinutes_ceil_mono:
  "0 < RANK_INTERVAL c * MINUTE c \<Longrightarrow> a \<le> b \<Longrightarrow>
   roundMinutes c a False \<le> roundMinutes c b False"
proof -
  assume g: "0 < RANK_INTERVAL c * MINUTE c" and ab: "a \<le> b"
  let ?g = "RANK_INTERVAL c * MINUTE c"
  have "(- b) div ?g \<le> (- a) div ?g"
    using ab g by (intro zdiv_mono1) simp_all
  then have "- ((- a) div ?g) * ?g \<le> - ((- b) div ?g) * ?g"
    using g by (simp add: mult_le_cancel_right)
  then show ?thesis by (simp add: roundMinutes_def)
qed

lemma every_True: "(every p xs = Inr True) = (\<forall>x \<in> set xs. p x = Inr True)"
proof (induction xs)
  case Nil
  then show ?case by simp
next
  case (Cons x xs)
  show ?case
  proof (cases "p x")
    case (Inl e)
    then show ?thesis by simp
  next
    case (Inr b)
    with Cons show ?thesis by (cases b) simp_all
  qed
qed

lemma every_False: "every p xs = Inr False \<Longrightarrow> \<exists>x \<in> set xs. p x = Inr False"
proof (induction xs)
  case Nil
  then show ?case by simp
next
  case (Cons x xs)
  show ?case
  proof (cases "p x")
    case (Inl e)
    with Cons.prems show ?thesis by simp
  next
    case (Inr b)
    with Cons show ?thesis by (cases b) simp_all
  qed
qed

lemma compare_loop_short:
  "cnt + length (filter (\<lambda>b. \<not> unresolved b) xs) < RANK_PER_DAY c \<Longrightarrow>
   compare_loop c xs cnt compareMap = compareMap"
  by (induction xs arbitrary: cnt compareMap) auto

lemma compareDate_early_index:
  assumes "i < RANK_PER_DAY c"
  shows "compareDate_at c n combined i = 0"
proof -
  have "length (filter (\<lambda>b. \<not> unresolved b) (rev (take i combined))) \<le> i"
    by (metis length_filter_le length_rev length_take min.cobounded2 order_trans)
  with assms have "compare_loop c (rev (take i combined)) 0 None = None"
    by (intro compare_loop_short) simp
  then show ?thesis by (simp add: compareDate_at_def)
qed

lemma top_block:
  "sorted D \<Longrightarrow> \<forall>y \<in> set D. y \<le> (x::int) \<Longrightarrow> k \<le> count_list D x \<Longrightarrow>
   \<forall>y \<in> set (take k (rev D)). y = x"
proof (induction D arbitrary: k rule: rev_induct)
  case Nil
  then show ?case by simp
next
  case (snoc z D)
  show ?case
  proof (cases "z = x")
    case True
    show ?thesis
    proof (cases k)
      case 0
      then show ?thesis by simp
    next
      case (Suc k')
      have "sorted D" "\<forall>y \<in> set D. y \<le> x" "k' \<le> count_list D x"
        using snoc.prems True Suc by (simp_all add: sorted_append)
      from snoc.IH[OF this] True Suc show ?thesis by simp
    qed
  next
    case False
    then have "z < x" using snoc.prems(2) by force
    then have "\<forall>y \<in> set D. y \<noteq> x"
      using snoc.prems(1) by (fastforce simp: sorted_append)
    then have "x \<notin> set D" by blast
    then have "count_list D x = 0" by (simp add: count_list_0_iff)
    with snoc.prems(3) False have "k = 0" by simp
    then show ?thesis by simp
  qed
qed

lemma count_snoc:
  assumes s: "sorted D" and c: "\<forall>X. count_list D X \<le> r" and r: "0 < r"
    and ge: "\<forall>y \<in> set D. y \<le> (x::int)"
    and ne: "r \<le> length D \<Longrightarrow> \<forall>y \<in> set (take r (rev D)). y = x \<Longrightarrow> False"
  shows "sorted (D @ [x]) \<and> (\<forall>X. count_list (D @ [x]) X \<le> r)"
proof -
  have "sorted (D @ [x])" using s ge by (simp add: sorted_append)
  moreover have "count_list (D @ [x]) X \<le> r" for X
  proof (cases "X = x")
    case False
    with c show ?thesis by simp
  next
    case True
    have "count_list D x < r"
    proof (rule ccontr)
      assume "\<not> count_list D x < r"
      then have k: "r \<le> count_list D x" by simp
      then have "r \<le> length D"
        by (meson count_le_length order_trans)
      moreover have "\<forall>y \<in> set (take r (rev D)). y = x"
        using top_block[OF s ge k] .
      ultimately show False by (rule ne)
    qed
    with True show ?thesis by simp
  qed
  ultimately show ?thesis by blast
qed

lemma rankFloor_Some: "rankDate b = Some r \<Longrightarrow> rankFloor c b = Inr (roundMinutes c r True)"
  by (simp add: rankFloor_def getTime_def)

lemma rankFloor_Inr: "rankFloor c b = Inr x \<Longrightarrow> \<exists>r. rankDate b = Some r \<and> x = roundMinutes c r True"
  by (cases "rankDate b") (simp_all add: rankFloor_def getTime_def)

lemma projectDates_result:
  assumes "projectDates c n cmb i = Inr q"
  shows "\<exists>qd p. queueDate (cmb ! i) = Some qd \<and>
           q = (cmb ! i)\<lparr>rankDateEarly := Some (max qd (compareDate_at c n cmb i)),
                 probability := p,
                 rankDate := Some (roundMinutes c (max qd (compareDate_at c n cmb i)) False)\<rparr>"
proof (cases "queueDate (cmb ! i)")
  case None
  with assms show ?thesis by (simp add: projectDates_def getTime_def Let_def)
next
  case (Some qd)
  with assms show ?thesis
    by (simp add: projectDates_def getTime_def Let_def) blast
qed

lemma pullForward_result:
  assumes "pullForward c f0 q = Inr q'" "rankDate q = Some rd"
  shows "(queueDate f0 = None \<and> q' = q) \<or>
         (\<exists>r0. queueDate f0 \<noteq> None \<and> rankDate f0 = Some r0 \<and>
            (if rd < roundMinutes c r0 True
             then q' = q\<lparr>rankDate := Some (roundMinutes c r0 True),
                         rankDateEarly := Some (roundMinutes c r0 True),
                         probability := Some (Num 0)\<rparr>
             else q' = q))"
proof (cases "queueDate f0")
  case None
  with assms show ?thesis by (simp add: pullForward_def)
next
  case (Some x)
  show ?thesis
  proof (cases "rankDate f0")
    case None
    with assms Some show ?thesis
      by (simp add: pullForward_def getTime_def rankFloor_def)
  next
    case r0: (Some r0)
    with assms Some show ?thesis
      by (auto simp: pullForward_def getTime_def rankFloor_def split: if_splits)
  qed
qed

lemma overflow_shape2:
  "(case E1 of
      Inl e \<Rightarrow> Inl e
    | Inr False \<Rightarrow> Inr q
    | Inr True \<Rightarrow>
        (case E2 of
           Inl e \<Rightarrow> Inl e
         | Inr same \<Rightarrow> (case R of Inl e \<Rightarrow> Inl e | Inr r0 \<Rightarrow> Inr (F same r0)))) = Inr q' \<Longrightarrow>
   (E1 = Inr False \<and> q' = q) \<or>
   (E1 = Inr True \<and> (\<exists>same r0. E2 = Inr same \<and> R = Inr r0 \<and> q' = F same r0))"
  by (auto split: sum.splits bool.splits)

lemma slotOverflow_result:
  assumes s: "slotOverflow c F f0 q = Inr q'" and e: "rankDateEarly q = Some early"
  shows "(q' = q \<and>
          (\<exists>b \<in> set (take (RANK_PER_RUN c) F). \<exists>r. rankDate b = Some r \<and>
             roundMinutes c r True < roundMinutes c early True)) \<or>
         (\<exists>same r0. rankDate f0 = Some r0 \<and>
            q' = q\<lparr>rankDate := Some (if same then roundMinutes c r0 True + RANK_INTERVAL c * MINUTE c
                                       else roundMinutes c r0 True),
                    rankDateEarly := Some (if same then roundMinutes c r0 True + RANK_INTERVAL c * MINUTE c
                                            else roundMinutes c r0 True),
                    probability := Some (Num 0)\<rparr> \<and>
            ((\<forall>b \<in> set (take (RANK_PER_RUN c) F).
                \<exists>r l rl. rankDate b = Some r \<and> element F (RANK_PER_RUN c - 1) = Inr l \<and>
                  rankDate l = Some rl \<and> roundMinutes c r True = roundMinutes c rl True)
             \<longrightarrow> same))"
proof -
  let ?p1 = "\<lambda>beatmapSet. case rankFloor c beatmapSet of
      Inl e \<Rightarrow> Inl e
    | Inr r \<Rightarrow> (case getTime (rankDateEarly q) of
          Inl e \<Rightarrow> Inl e
        | Inr early \<Rightarrow> Inr (r \<ge> roundMinutes c early True))"
  let ?p2 = "\<lambda>beatmapSet. case rankFloor c beatmapSet of
      Inl e \<Rightarrow> Inl e
    | Inr r \<Rightarrow> (case element F (RANK_PER_RUN c - 1) of
          Inl e \<Rightarrow> Inl e
        | Inr l \<Rightarrow> (case rankFloor c l of Inl e \<Rightarrow> Inl e | Inr rl \<Rightarrow> Inr (r = rl)))"
  let ?xs = "take (RANK_PER_RUN c) F"
  from s[unfolded slotOverflow_def Let_def]
  have "(every ?p1 ?xs = Inr False \<and> q' = q) \<or>
        (every ?p1 ?xs = Inr True \<and> (\<exists>same r0. every ?p2 ?xs = Inr same \<and>
           rankFloor c f0 = Inr r0 \<and>
           q' = q\<lparr>rankDate := Some (if same then r0 + RANK_INTERVAL c * MINUTE c else r0),
                   rankDateEarly := Some (if same then r0 + RANK_INTERVAL c * MINUTE c else r0),
                   probability := Some (Num 0)\<rparr>))"
    by (rule overflow_shape2)
  then show ?thesis
  proof
    assume a: "every ?p1 ?xs = Inr False \<and> q' = q"
    then obtain b where b: "b \<in> set ?xs" "?p1 b = Inr False"
      using every_False[of ?p1 ?xs] by blast
    then obtain r where "rankDate b = Some r" "\<not> roundMinutes c early True \<le> roundMinutes c r True"
      using e by (cases "rankDate b") (auto simp: rankFloor_def getTime_def)
    with a b show ?thesis by force
  next
    assume "every ?p1 ?xs = Inr True \<and> (\<exists>same r0. every ?p2 ?xs = Inr same \<and>
           rankFloor c f0 = Inr r0 \<and>
           q' = q\<lparr>rankDate := Some (if same then r0 + RANK_INTERVAL c * MINUTE c else r0),
                   rankDateEarly := Some (if same then r0 + RANK_INTERVAL c * MINUTE c else r0),
                   probability := Some (Num 0)\<rparr>)"
    then obtain same fl where a: "every ?p2 ?xs = Inr same" "rankFloor c f0 = Inr fl"
      "q' = q\<lparr>rankDate := Some (if same then fl + RANK_INTERVAL c * MINUTE c else fl),
               rankDateEarly := Some (if same then fl + RANK_INTERVAL c * MINUTE c else fl),
               probability := Some (Num 0)\<rparr>"
      by blast
    from rankFloor_Inr[OF a(2)] obtain r0 where r0: "rankDate f0 = Some r0"
      "fl = roundMinutes c r0 True" by blast
    have "same" if h: "\<forall>b \<in> set ?xs.
        \<exists>r l rl. rankDate b = Some r \<and> element F (RANK_PER_RUN c - 1) = Inr l \<and>
          rankDate l = Some rl \<and> roundMinutes c r True = roundMinutes c rl True"
    proof -
      have "\<forall>b \<in> set ?xs. ?p2 b = Inr True"
      proof
        fix b assume "b \<in> set ?xs"
        with h obtain r l rl where "rankDate b = Some r" "element F (RANK_PER_RUN c - 1) = Inr l"
          "rankDate l = Some rl" "roundMinutes c r True = roundMinutes c rl True"
          by blast
        then show "?p2 b = Inr True"
          by (simp add: rankFloor_Some)
      qed
      then have "every ?p2 ?xs = Inr True" by (simp only: every_True)
      with a(1) show ?thesis by simp
    qed
    with a(3) r0 show ?thesis by blast
  qed
qed

lemma element_take:
  "k < r \<Longrightarrow> k < length F \<Longrightarrow> F ! k \<in> set (take r F)"
  by (metis in_set_conv_nth length_take min_less_iff_conj nth_take)

lemma adjust_step_resolved:
  assumes step: "adjust_step c n cmb i = Inr cmb'"
    and g: "0 < RANK_INTERVAL c * MINUTE c"
    and res: "\<not> unresolved (cmb ! i)"
  shows "\<exists>q' qd rd.
      cmb' = cmb[i := q'] \<and> \<not> unresolved q' \<and>
      queueDate (cmb ! i) = Some qd \<and> queueDate q' = Some qd \<and>
      rankDate q' = Some rd \<and> RANK_INTERVAL c * MINUTE c dvd rd \<and>
      (i < RANK_PER_RUN c \<longrightarrow>
         rd = roundMinutes c (max qd (compareDate_at c n cmb i)) False) \<and>
      (RANK_PER_RUN c \<le> i \<longrightarrow>
         (\<exists>f0. element (rev (filter (\<lambda>b. \<not> unresolved b) (take i cmb))) 0 = Inr f0 \<and>
            (queueDate f0 \<noteq> None \<longrightarrow>
               (\<exists>r0. rankDate f0 = Some r0 \<and> roundMinutes c r0 True \<le> rd)))) \<and>
      (RANK_PER_RUN c \<le> i \<longrightarrow> 1 \<le> RANK_PER_RUN c \<longrightarrow>
         RANK_PER_RUN c \<le> length (rev (filter (\<lambda>b. \<not> unresolved b) (take i cmb))) \<longrightarrow>
         (\<forall>X. (\<forall>b \<in> set (take (RANK_PER_RUN c)
                    (rev (filter (\<lambda>b. \<not> unresolved b) (take i cmb)))). rankDate b = Some X) \<longrightarrow>
              RANK_INTERVAL c * MINUTE c dvd X \<longrightarrow> rd \<noteq> X))"
proof -
  let ?I = "RANK_INTERVAL c * MINUTE c"
  let ?R = "RANK_PER_RUN c"
  let ?F = "rev (filter (\<lambda>b. \<not> unresolved b) (take i cmb))"
  from step obtain q1 where p: "projectDates c n cmb i = Inr q1"
    by (cases "projectDates c n cmb i") (simp_all add: adjust_step_def)
  from projectDates_result[OF p] obtain qd pr where qd: "queueDate (cmb ! i) = Some qd"
    and q1: "q1 = (cmb ! i)\<lparr>rankDateEarly := Some (max qd (compareDate_at c n cmb i)),
                 probability := pr,
                 rankDate := Some (roundMinutes c (max qd (compareDate_at c n cmb i)) False)\<rparr>"
    by blast
  define e1 where "e1 = max qd (compareDate_at c n cmb i)"
  define rd1 where "rd1 = roundMinutes c e1 False"
  have le1: "e1 \<le> rd1"
    unfolding rd1_def using g by (rule roundMinutes_ceil_ge)
  have dv1: "?I dvd rd1"
    unfolding rd1_def by (rule roundMinutes_dvd)
  have f1: "rankDate q1 = Some rd1" "rankDateEarly q1 = Some e1" "queueDate q1 = Some qd"
    "\<not> unresolved q1" "e1 \<le> rd1" "?I dvd rd1"
    using q1 qd res le1 dv1 by (simp_all add: e1_def rd1_def)
  show ?thesis
  proof (cases "?R \<le> i")
    case False
    with step p f1(4) have "cmb' = cmb[i := q1]"
      by (simp add: adjust_step_def)
    with False f1 qd show ?thesis
      unfolding rd1_def e1_def by auto
  next
    case True
    with step p f1(4) obtain q' where cap: "perRunCap c cmb i q1 = Inr q'"
      and cmb': "cmb' = cmb[i := q']"
      by (cases "perRunCap c cmb i q1") (simp_all add: adjust_step_def)
    from cap obtain f0 where f0: "element ?F 0 = Inr f0"
      unfolding perRunCap_def Let_def by (cases "element ?F 0") simp_all
    with cap obtain q2 where pf: "pullForward c f0 q1 = Inr q2"
      unfolding perRunCap_def Let_def by (cases "pullForward c f0 q1") simp_all
    with cap f0 have so: "slotOverflow c ?F f0 q2 = Inr q'"
      unfolding perRunCap_def Let_def by simp
    from pullForward_result[OF pf f1(1)]
    consider (none) "queueDate f0 = None" "q2 = q1"
      | (pull) r0 where "queueDate f0 \<noteq> None" "rankDate f0 = Some r0"
          "rd1 < roundMinutes c r0 True"
          "q2 = q1\<lparr>rankDate := Some (roundMinutes c r0 True),
                     rankDateEarly := Some (roundMinutes c r0 True),
                     probability := Some (Num 0)\<rparr>"
      | (keep) r0 where "queueDate f0 \<noteq> None" "rankDate f0 = Some r0"
          "\<not> rd1 < roundMinutes c r0 True" "q2 = q1"
      by (metis (full_types))
    then have "\<exists>rd2 e2. rankDate q2 = Some rd2 \<and> rankDateEarly q2 = Some e2 \<and> e2 \<le> rd2 \<and>
        ?I dvd rd2 \<and> queueDate q2 = Some qd \<and> \<not> unresolved q2 \<and>
        (queueDate f0 \<noteq> None \<longrightarrow> (\<exists>r0. rankDate f0 = Some r0 \<and> roundMinutes c r0 True \<le> rd2))"
    proof cases
      case none
      with f1 show ?thesis by simp
    next
      case pull
      with f1 show ?thesis by (simp add: roundMinutes_dvd)
    next
      case keep
      with f1 show ?thesis by simp
    qed
    then obtain rd2 e2 where f2: "rankDate q2 = Some rd2" "rankDateEarly q2 = Some e2"
      "e2 \<le> rd2" "?I dvd rd2" "queueDate q2 = Some qd" "\<not> unresolved q2"
      and f2b: "queueDate f0 \<noteq> None \<longrightarrow>
        (\<exists>r0. rankDate f0 = Some r0 \<and> roundMinutes c r0 True \<le> rd2)"
      by blast
    from slotOverflow_result[OF so f2(2)]
    show ?thesis
    proof
      assume a: "q' = q2 \<and> (\<exists>b \<in> set (take ?R ?F). \<exists>r. rankDate b = Some r \<and>
          roundMinutes c r True < roundMinutes c e2 True)"
      then obtain b r where b: "b \<in> set (take ?R ?F)" "rankDate b = Some r"
        "roundMinutes c r True < roundMinutes c e2 True"
        by blast
      have "rd2 \<noteq> X" if "\<forall>b \<in> set (take ?R ?F). rankDate b = Some X" "?I dvd X" for X
      proof -
        from that b have "r = X" by auto
        with b(3) that(2) have "X < roundMinutes c e2 True"
          by (simp add: roundMinutes_floor_grid)
        also have "\<dots> \<le> e2" using g by (rule roundMinutes_floor_le)
        finally show ?thesis using f2(3) by simp
      qed
      with a cmb' f2 f2b f0 qd True show ?thesis
        by (intro exI[of _ q'] exI[of _ qd] exI[of _ rd2]) auto
    next
      assume "\<exists>same r0. rankDate f0 = Some r0 \<and>
          q' = q2\<lparr>rankDate := Some (if same then roundMinutes c r0 True + ?I
                                       else roundMinutes c r0 True),
                   rankDateEarly := Some (if same then roundMinutes c r0 True + ?I
                                            else roundMinutes c r0 True),
                   probability := Some (Num 0)\<rparr> \<and>
          ((\<forall>b \<in> set (take ?R ?F).
              \<exists>r l rl. rankDate b = Some r \<and> element ?F (?R - 1) = Inr l \<and>
                rankDate l = Some rl \<and> roundMinutes c r True = roundMinutes c rl True)
           \<longrightarrow> same)"
      then obtain same r0 where r0: "rankDate f0 = Some r0"
        and q': "q' = q2\<lparr>rankDate := Some (if same then roundMinutes c r0 True + ?I
                                       else roundMinutes c r0 True),
                   rankDateEarly := Some (if same then roundMinutes c r0 True + ?I
                                            else roundMinutes c r0 True),
                   probability := Some (Num 0)\<rparr>"
        and sm: "(\<forall>b \<in> set (take ?R ?F).
              \<exists>r l rl. rankDate b = Some r \<and> element ?F (?R - 1) = Inr l \<and>
                rankDate l = Some rl \<and> roundMinutes c r True = roundMinutes c rl True)
           \<longrightarrow> same"
        by blast
      define rd where "rd = (if same then roundMinutes c r0 True + ?I else roundMinutes c r0 True)"
      have rd: "rankDate q' = Some rd" "queueDate q' = Some qd" "\<not> unresolved q'"
        using q' f2 by (simp_all add: rd_def)
      have dv: "?I dvd rd"
        by (simp add: rd_def roundMinutes_dvd)
      have ge: "roundMinutes c r0 True \<le> rd"
        using g by (simp add: rd_def)
      have "rd \<noteq> X" if one: "1 \<le> ?R" and len: "?R \<le> length ?F"
        and all: "\<forall>b \<in> set (take ?R ?F). rankDate b = Some X" and X: "?I dvd X" for X
      proof -
        have pos: "0 < ?R" "0 < length ?F" "?R - 1 < ?R" "?R - 1 < length ?F"
          using one len by linarith+
        have l: "?F ! (?R - 1) \<in> set (take ?R ?F)"
          using pos(3,4) by (rule element_take)
        have el: "element ?F (?R - 1) = Inr (?F ! (?R - 1))"
          using pos(4) unfolding element_def by (simp only: if_True)
        have "?F ! 0 \<in> set (take ?R ?F)"
          using pos(1,2) by (rule element_take)
        moreover have "f0 = ?F ! 0"
          using f0 by (auto simp: element_def split: if_splits)
        ultimately have "r0 = X" using all r0 by auto
        have "same"
          using sm all l el by blast
        then have "rd = roundMinutes c r0 True + ?I" by (simp add: rd_def)
        also have "\<dots> = X + ?I"
          using \<open>r0 = X\<close> X by (simp only: roundMinutes_floor_grid)
        finally show ?thesis using g by linarith
      qed
      with rd dv ge cmb' qd r0 f0 True show ?thesis
        by (intro exI[of _ q'] exI[of _ qd] exI[of _ rd]) auto
    qed
  qed
qed

lemma projected_step:
  assumes "n \<le> i" "i < length cmb"
  shows "projected (cmb[i := q']) n (Suc i) =
           projected cmb n i @ (if unresolved q' then [] else [q'])"
proof -
  have "take (Suc i) (cmb[i := q']) = take i cmb @ [q']"
    using assms(2) by (simp add: take_Suc_conv_app_nth)
  then show ?thesis
    using assms by (simp add: projected_def)
qed

lemma filtered_projected:
  assumes "n \<le> i"
  shows "rev (filter (\<lambda>b. \<not> unresolved b) (take i cmb)) =
           rev (projected cmb n i) @ rev (filter (\<lambda>b. \<not> unresolved b) (take n cmb))"
proof -
  have "take i cmb = take n (take i cmb) @ drop n (take i cmb)"
    by (rule append_take_drop_id[symmetric])
  also have "take n (take i cmb) = take n cmb" using assms by (simp add: min_def)
  finally have "take i cmb = take n cmb @ drop n (take i cmb)" .
  then have "filter (\<lambda>b. \<not> unresolved b) (take i cmb) =
      filter (\<lambda>b. \<not> unresolved b) (take n cmb) @ projected cmb n i"
    unfolding projected_def by (metis filter_append)
  then show ?thesis by simp
qed

lemma projected_length: "length (projected cmb n i) \<le> i - n"
  unfolding projected_def
  by (metis length_drop length_filter_le length_take min.cobounded2 diff_le_mono order_trans)

lemma sorted_le_last:
  "sorted (xs :: int list) \<Longrightarrow> y \<in> set xs \<Longrightarrow> y \<le> last xs"
  by (induction xs) (auto split: if_splits)

lemma sameBut_fields:
  "sameButProjection a b \<Longrightarrow> unresolved b = unresolved a \<and> queueDate b = queueDate a"
  unfolding sameButProjection_def by (cases a, cases b) simp

lemma le_queue_same:
  "queueDate a = queueDate a' \<Longrightarrow> le_queue a b = le_queue a' b"
  by (simp add: le_queue_def)

lemma cap_inv_step:
  assumes step: "adjust_step c n cmb i = Inr cmb'"
    and inv: "cap_inv c n cmb i"
    and i: "i < length cmb"
    and g: "0 < RANK_INTERVAL c * MINUTE c"
    and one: "1 \<le> RANK_PER_RUN c"
    and rd: "RANK_PER_RUN c \<le> RANK_PER_DAY c"
  shows "cap_inv c n cmb' (Suc i)"
proof -
  let ?I = "RANK_INTERVAL c * MINUTE c"
  let ?R = "RANK_PER_RUN c"
  let ?Q = "projected cmb n i"
  let ?F = "rev (filter (\<lambda>b. \<not> unresolved b) (take i cmb))"
  from inv have ni: "n \<le> i"
    and b: "\<forall>b \<in> set ?Q. \<exists>r qd. rankDate b = Some r \<and> ?I dvd r \<and> queueDate b = Some qd"
    and srt: "sorted (map rankTime ?Q)"
    and cnt: "\<forall>X. count_list (map rankTime ?Q) X \<le> ?R"
    and early: "i \<le> ?R \<longrightarrow> (\<forall>b \<in> set ?Q.
        \<exists>qd. queueDate b = Some qd \<and> rankDate b = Some (roundMinutes c (max qd 0) False))"
    and ord: "\<forall>b \<in> set ?Q. \<forall>b' \<in> set (drop i cmb). le_queue b b'"
    and rest: "sorted_wrt le_queue (drop i cmb)"
    unfolding cap_inv_def by blast+
  from adjust_step_frame[OF step] obtain q0 where
    q0: "cmb' = cmb[i := q0]" "sameButProjection (cmb ! i) q0" by blast
  then have same: "unresolved q0 = unresolved (cmb ! i)" "queueDate q0 = queueDate (cmb ! i)"
    using sameBut_fields by blast+
  have dr: "drop i cmb = cmb ! i # drop (Suc i) cmb"
    using i by (simp add: Cons_nth_drop_Suc)
  have dr': "drop (Suc i) cmb' = drop (Suc i) cmb"
    using q0(1) by simp
  have rest': "sorted_wrt le_queue (drop (Suc i) cmb')"
    using rest dr dr' by simp
  have head: "\<forall>b' \<in> set (drop (Suc i) cmb'). le_queue q0 b'"
    using rest dr dr' le_queue_same[OF same(2)] by simp
  have ord': "\<forall>b \<in> set ?Q. \<forall>b' \<in> set (drop (Suc i) cmb'). le_queue b b'"
    using ord dr dr' by simp
  have Q': "projected cmb' n (Suc i) = ?Q @ (if unresolved q0 then [] else [q0])"
    unfolding q0(1) using ni i by (rule projected_step)
  show ?thesis
  proof (cases "unresolved (cmb ! i)")
    case True
    then have "projected cmb' n (Suc i) = ?Q" using Q' same by simp
    with ni i b srt cnt early ord' rest' q0(1) show ?thesis
      unfolding cap_inv_def by simp
  next
    case False
    from adjust_step_resolved[OF step g False] obtain q' qd r where
      r: "cmb' = cmb[i := q']" "\<not> unresolved q'" "queueDate (cmb ! i) = Some qd"
        "queueDate q' = Some qd" "rankDate q' = Some r" "?I dvd r"
      and A: "i < ?R \<longrightarrow> r = roundMinutes c (max qd (compareDate_at c n cmb i)) False"
      and B: "?R \<le> i \<longrightarrow> (\<exists>f0. element ?F 0 = Inr f0 \<and>
            (queueDate f0 \<noteq> None \<longrightarrow>
               (\<exists>r0. rankDate f0 = Some r0 \<and> roundMinutes c r0 True \<le> r)))"
      and C: "?R \<le> i \<longrightarrow> 1 \<le> ?R \<longrightarrow> ?R \<le> length ?F \<longrightarrow>
         (\<forall>X. (\<forall>b \<in> set (take ?R ?F). rankDate b = Some X) \<longrightarrow> ?I dvd X \<longrightarrow> r \<noteq> X)"
      by blast
    have qq: "q' = q0"
      using r(1) q0(1) i by (metis nth_list_update_eq)
    have F: "?F = rev ?Q @ rev (filter (\<lambda>b. \<not> unresolved b) (take n cmb))"
      using ni by (rule filtered_projected)
    have rt: "rankTime b = x" if "b \<in> set ?Q" "rankDate b = Some x" for b x
      using that by (simp add: rankTime_def)
    have ge: "\<forall>y \<in> set (map rankTime ?Q). y \<le> r"
    proof (cases "i < ?R")
      case True
      then have cd: "compareDate_at c n cmb i = 0"
        using rd by (intro compareDate_early_index) simp
      have "rankTime b \<le> r" if bq: "b \<in> set ?Q" for b
      proof -
        from early True bq obtain qb where qb: "queueDate b = Some qb"
          "rankDate b = Some (roundMinutes c (max qb 0) False)" by auto
        have "le_queue b (cmb ! i)" using ord bq dr by simp
        with qb(1) r(3) have "qb \<le> qd" by (simp add: le_queue_def)
        then have "roundMinutes c (max qb 0) False \<le> roundMinutes c (max qd 0) False"
          using g by (intro roundMinutes_ceil_mono) simp_all
        with A True cd qb(2) show ?thesis by (simp add: rankTime_def)
      qed
      then show ?thesis by simp
    next
      case nl: False
      show ?thesis
      proof (cases "?Q = []")
        case True
        then show ?thesis by simp
      next
        case ne: False
        from B nl obtain f0 where f0: "element ?F 0 = Inr f0"
          and fb: "queueDate f0 \<noteq> None \<longrightarrow>
               (\<exists>r0. rankDate f0 = Some r0 \<and> roundMinutes c r0 True \<le> r)"
          by auto
        have "?F ! 0 = last ?Q"
          using ne by (simp add: F nth_append hd_conv_nth[symmetric] hd_rev)
        then have fl: "f0 = last ?Q"
          using f0 by (auto simp: element_def split: if_splits)
        then have "f0 \<in> set ?Q" using ne by simp
        with b obtain r0 q0' where r0: "rankDate f0 = Some r0" "?I dvd r0"
          "queueDate f0 = Some q0'" by blast
        with fb have "roundMinutes c r0 True \<le> r" by simp
        then have "r0 \<le> r" using r0(2) by (simp add: roundMinutes_floor_grid)
        moreover have "last (map rankTime ?Q) = r0"
          using ne fl r0(1) by (simp add: last_map rankTime_def)
        ultimately show ?thesis
          using sorted_le_last[OF srt] by fastforce
      qed
    qed
    have ne: False if len: "?R \<le> length (map rankTime ?Q)"
      and all: "\<forall>y \<in> set (take ?R (rev (map rankTime ?Q))). y = r"
    proof -
      have lq: "?R \<le> length ?Q" using len by simp
      have "?R \<le> i" using lq projected_length[of cmb n i] by linarith
      moreover have "?R \<le> length ?F" using lq by (simp add: F)
      moreover have tk: "take ?R ?F = take ?R (rev ?Q)" using lq by (simp add: F)
      moreover have "\<forall>b \<in> set (take ?R ?F). rankDate b = Some r"
      proof
        fix b' assume b': "b' \<in> set (take ?R ?F)"
        then have in_t: "b' \<in> set (take ?R (rev ?Q))" using tk by simp
        then have "b' \<in> set ?Q" by (metis in_set_takeD set_rev)
        with b obtain x where x: "rankDate b' = Some x" by blast
        have "rankTime b' \<in> set (take ?R (rev (map rankTime ?Q)))"
          using in_t by (simp add: rev_map take_map)
        with all have "rankTime b' = r" by blast
        with x show "rankDate b' = Some r" by (simp add: rankTime_def)
      qed
      ultimately show False using C one r(6) by blast
    qed
    from count_snoc[OF srt cnt _ ge ne] one
    have new: "sorted (map rankTime ?Q @ [r])"
      "\<forall>X. count_list (map rankTime ?Q @ [r]) X \<le> ?R"
      by simp_all
    have Qn: "projected cmb' n (Suc i) = ?Q @ [q']"
      using Q' r(2) qq by simp
    have rq: "rankTime q' = r" using r(5) by (simp add: rankTime_def)
    have b': "\<forall>b \<in> set (?Q @ [q']).
        \<exists>r qd. rankDate b = Some r \<and> ?I dvd r \<and> queueDate b = Some qd"
      using b r by auto
    have early': "Suc i \<le> ?R \<longrightarrow> (\<forall>b \<in> set (?Q @ [q']).
        \<exists>qd. queueDate b = Some qd \<and> rankDate b = Some (roundMinutes c (max qd 0) False))"
    proof
      assume s: "Suc i \<le> ?R"
      then have "compareDate_at c n cmb i = 0"
        using rd by (intro compareDate_early_index) simp
      with A s r have "rankDate q' = Some (roundMinutes c (max qd 0) False)" by simp
      with early s r(4) show "\<forall>b \<in> set (?Q @ [q']).
        \<exists>qd. queueDate b = Some qd \<and> rankDate b = Some (roundMinutes c (max qd 0) False)"
        by auto
    qed
    have ord'': "\<forall>b \<in> set (?Q @ [q']). \<forall>b' \<in> set (drop (Suc i) cmb'). le_queue b b'"
      using ord' head qq by auto
    show ?thesis
      unfolding cap_inv_def Qn
      using ni i b' new early' ord'' rest' r(1) rq by simp
  qed
qed

lemma cap_inv_loop:
  assumes g: "0 < RANK_INTERVAL c * MINUTE c"
    and one: "1 \<le> RANK_PER_RUN c"
    and rd: "RANK_PER_RUN c \<le> RANK_PER_DAY c"
  shows "adjust_loop c n cmb [i..<length cmb] = Inr cmb' \<Longrightarrow> cap_inv c n cmb i \<Longrightarrow>
         cap_inv c n cmb' (length cmb') \<and> length cmb' = length cmb"
proof (induction "length cmb - i" arbitrary: i cmb)
  case 0
  then have "i = length cmb" unfolding cap_inv_def by simp
  with 0 show ?case by simp
next
  case (Suc k)
  then have i: "i < length cmb" by simp
  then have up: "[i..<length cmb] = i # [Suc i..<length cmb]"
    by (simp add: upt_conv_Cons)
  from Suc.prems(1) obtain mid where mid: "adjust_step c n cmb i = Inr mid"
    and rest: "adjust_loop c n mid [Suc i..<length cmb] = Inr cmb'"
    unfolding up by (auto split: sum.splits)
  from adjust_step_frame[OF mid] have len: "length mid = length cmb" by auto
  have inv: "cap_inv c n mid (Suc i)"
    using mid Suc.prems(2) i g one rd by (rule cap_inv_step)
  have k: "k = length mid - Suc i" using Suc.hyps(2) len by simp
  have rest': "adjust_loop c n mid [Suc i..<length mid] = Inr cmb'"
    using rest len by simp
  from Suc.hyps(1)[OF k rest' inv] len show ?case by auto
qed

lemma count_map:
  "\<forall>b \<in> set Q. P b = (f b = X) \<Longrightarrow> length (filter P Q) = count_list (map f Q) X"
  by (induction Q) simp_all

lemma per_run_cap_aux:
  assumes run: "adjustRankDates c qualifiedMaps rankedMaps 0 = Inr combined"
    and srt: "sorted_wrt le_queue qualifiedMaps"
    and g: "0 < RANK_INTERVAL c * MINUTE c"
    and one: "1 \<le> RANK_PER_RUN c"
    and rd: "RANK_PER_RUN c \<le> RANK_PER_DAY c"
  shows "bucket_count c X (drop (length rankedMaps) combined) \<le> RANK_PER_RUN c"
proof -
  let ?n = "length rankedMaps"
  let ?all = "rankedMaps @ qualifiedMaps"
  have init: "cap_inv c ?n ?all ?n"
    using srt by (simp add: cap_inv_def projected_def)
  from run have "adjust_loop c ?n ?all [?n..<length ?all] = Inr combined"
    by (simp add: adjustRankDates_def Let_def)
  from cap_inv_loop[OF g one rd this init]
  have inv: "cap_inv c ?n combined (length combined)" by blast
  let ?Q = "projected combined ?n (length combined)"
  have Q: "?Q = filter (\<lambda>b. \<not> unresolved b) (drop ?n combined)"
    by (simp add: projected_def)
  from inv have b: "\<forall>b \<in> set ?Q. \<exists>r qd. rankDate b = Some r \<and>
      RANK_INTERVAL c * MINUTE c dvd r \<and> queueDate b = Some qd"
    and cnt: "count_list (map rankTime ?Q) X \<le> RANK_PER_RUN c"
    unfolding cap_inv_def by blast+
  have "\<forall>b \<in> set ?Q. (rankFloor c b = Inr X) = (rankTime b = X)"
  proof
    fix b' assume "b' \<in> set ?Q"
    with b obtain r where "rankDate b' = Some r" "RANK_INTERVAL c * MINUTE c dvd r" by blast
    then show "(rankFloor c b' = Inr X) = (rankTime b' = X)"
      by (simp add: rankFloor_Some rankTime_def roundMinutes_floor_grid)
  qed
  then have "length (filter (\<lambda>b. rankFloor c b = Inr X) ?Q) = count_list (map rankTime ?Q) X"
    by (rule count_map)
  moreover have "bucket_count c X (drop ?n combined) =
      length (filter (\<lambda>b. rankFloor c b = Inr X) ?Q)"
    unfolding bucket_count_def Q filter_filter by (metis (mono_tags, lifting) filter_cong)
  ultimately show ?thesis using cnt by simp
qed

lemma slot_overflow_push:
  assumes g: "0 < RANK_INTERVAL c * MINUTE c"
    and one: "1 \<le> RANK_PER_RUN c"
    and ri: "RANK_PER_RUN c \<le> i"
    and res: "\<not> unresolved (cmb ! i)"
    and qd: "queueDate (cmb ! i) = Some qd"
    and len: "RANK_PER_RUN c \<le> length (filteredMaps_at cmb i)"
    and all: "\<forall>b \<in> set (take (RANK_PER_RUN c) (filteredMaps_at cmb i)). rankFloor c b = Inr T"
    and fl: "roundMinutes c (max qd (compareDate_at c n cmb i)) True = T"
  shows "adjust_step c n cmb i =
    Inr (cmb[i := (cmb ! i)\<lparr>rankDateEarly := Some (T + RANK_INTERVAL c * MINUTE c),
                             probability := Some (Num 0),
                             rankDate := Some (T + RANK_INTERVAL c * MINUTE c)\<rparr>])"
proof -
  let ?I = "RANK_INTERVAL c * MINUTE c"
  let ?R = "RANK_PER_RUN c"
  let ?F = "rev (filter (\<lambda>b. \<not> unresolved b) (take i cmb))"
  define e where "e = max qd (compareDate_at c n cmb i)"
  define rd1 where "rd1 = roundMinutes c e False"
  define q1 where "q1 = (cmb ! i)\<lparr>rankDateEarly := Some e,
      probability := (if qd > compareDate_at c n cmb i \<or> i < n + RANK_PER_DAY c
         then Some (probabilityAfter c (real_of_int (intervalTimeDelta e)) None) else None),
      rankDate := Some rd1\<rparr>"
  have p: "projectDates c n cmb i = Inr q1"
    using qd by (simp add: projectDates_def getTime_def Let_def q1_def e_def rd1_def)
  have f1: "rankDate q1 = Some rd1" "rankDateEarly q1 = Some e" "\<not> unresolved q1"
    using res by (simp_all add: q1_def)
  have Tle: "T \<le> rd1"
  proof -
    have "T \<le> e" using roundMinutes_floor_le[OF g, of e] fl by (simp add: e_def)
    also have "e \<le> rd1" unfolding rd1_def using g by (rule roundMinutes_ceil_ge)
    finally show ?thesis .
  qed
  have F: "filteredMaps_at cmb i = ?F" by (simp add: filteredMaps_at_def)
  have pos: "0 < ?R" "0 < length ?F" "?R - 1 < ?R" "?R - 1 < length ?F"
    using one len unfolding F by linarith+
  have allF: "\<forall>b \<in> set (take ?R ?F). rankFloor c b = Inr T"
    using all unfolding F .
  have f0: "element ?F 0 = Inr (?F ! 0)"
    using pos(2) unfolding element_def by (simp only: if_True)
  have fl0: "rankFloor c (?F ! 0) = Inr T"
    using allF element_take[OF pos(1,2)] by blast
  have el: "element ?F (?R - 1) = Inr (?F ! (?R - 1))"
    using pos(4) unfolding element_def by (simp only: if_True)
  have fll: "rankFloor c (?F ! (?R - 1)) = Inr T"
    using allF element_take[OF pos(3,4)] by blast
  have pf: "pullForward c (?F ! 0) q1 = Inr q1"
    using Tle by (cases "queueDate (?F ! 0)") (simp_all add: pullForward_def fl0 f1 getTime_def)
  have e1: "every (\<lambda>beatmapSet. case rankFloor c beatmapSet of
        Inl e \<Rightarrow> Inl e
      | Inr r \<Rightarrow> (case getTime (rankDateEarly q1) of
            Inl e \<Rightarrow> Inl e
          | Inr early \<Rightarrow> Inr (r \<ge> roundMinutes c early True))) (take ?R ?F) = Inr True"
    unfolding every_True using allF fl by (simp add: f1 getTime_def e_def)
  have e2: "every (\<lambda>beatmapSet. case rankFloor c beatmapSet of
        Inl e \<Rightarrow> Inl e
      | Inr r \<Rightarrow> (case element ?F (?R - 1) of
            Inl e \<Rightarrow> Inl e
          | Inr l \<Rightarrow> (case rankFloor c l of Inl e \<Rightarrow> Inl e | Inr rl \<Rightarrow> Inr (r = rl))))
      (take ?R ?F) = Inr True"
    unfolding every_True using allF el fll by simp
  have so: "slotOverflow c ?F (?F ! 0) q1 =
      Inr (q1\<lparr>rankDate := Some (T + ?I), rankDateEarly := Some (T + ?I),
              probability := Some (Num 0)\<rparr>)"
    unfolding slotOverflow_def e1 e2 by (simp add: fl0 Let_def)
  have cap: "perRunCap c cmb i q1 =
      Inr (q1\<lparr>rankDate := Some (T + ?I), rankDateEarly := Some (T + ?I),
              probability := Some (Num 0)\<rparr>)"
    unfolding perRunCap_def Let_def f0 by (simp add: pf so)
  have "adjust_step c n cmb i =
      Inr (cmb[i := q1\<lparr>rankDate := Some (T + ?I), rankDateEarly := Some (T + ?I),
                          probability := Some (Num 0)\<rparr>])"
    unfolding adjust_step_def p using ri f1(3) by (simp add: cap)
  moreover have "q1\<lparr>rankDate := Some (T + ?I), rankDateEarly := Some (T + ?I),
        probability := Some (Num 0)\<rparr> =
      (cmb ! i)\<lparr>rankDateEarly := Some (T + ?I), probability := Some (Num 0),
        rankDate := Some (T + ?I)\<rparr>"
    by (simp add: q1_def)
  ultimately show ?thesis by (simp only:)
qed

lemmas example_defs2 =
  example_projected_def example_waiting_def example_waiting_queue_def
  example_waiting_result_def example_busy_queue_def example_busy_result_def
  example_qualified_def example_set_def example_constants_def

lemma example_waiting_run:
  "adjustRankDates example_constants example_waiting_queue [] 0 = Inr example_waiting_result"
  using example_probability
  by (simp add: adjustRankDates_def upt_conv_Cons step_defs example_defs2)

lemma example_busy_run:
  "adjustRankDates example_constants example_busy_queue [] 0 = Inr example_busy_result"
  using example_probability
  by (simp add: adjustRankDates_def upt_conv_Cons step_defs example_defs2)

text \<open>
  Claim C5, as stated: after \<^verbatim>\<open>adjustRankDates\<close> no \<^verbatim>\<open>RANK_PER_RUN + 1\<close> assigned rank dates
  share an interval. Sets with unresolved issues are assigned rank dates too, and step E
  skips them: four of them with one queue date are all given the same rank date, with
  \<^verbatim>\<open>RANK_PER_RUN = 3\<close>.
\<close>

theorem per_run_cap_counterexample:
  "adjustRankDates example_constants example_waiting_queue [] 0 = Inr example_waiting_result \<and>
   map (rankFloor example_constants) example_waiting_result =
     [Inr 1200000000, Inr 1200000000, Inr 1200000000, Inr 1200000000] \<and>
   RANK_PER_RUN example_constants = 3"
proof -
  have "map (rankFloor example_constants) example_waiting_result =
      [Inr 1200000000, Inr 1200000000, Inr 1200000000, Inr 1200000000]"
    by (simp add: rankFloor_def getTime_def roundMinutes_def example_defs2)
  moreover have "RANK_PER_RUN example_constants = 3"
    by (simp add: example_constants_def)
  ultimately show ?thesis
    using example_waiting_run by simp
qed


text \<open>
  Claim C5, amended: the cap holds among the sets without unresolved issues. With a
  positive interval, \<open>1 \<le> RANK_PER_RUN \<le> RANK_PER_DAY\<close> and the qualified sets in the order
  of their queue dates, after \<^verbatim>\<open>adjustRankDates\<close> with \<open>start = 0\<close> has completed, at most
  \<^verbatim>\<open>RANK_PER_RUN\<close> of the qualified sets without unresolved issues have their rank date in
  any one interval. And in the instance S6: when the set of iteration \<open>i \<ge> RANK_PER_RUN\<close> has
  no unresolved issues, the first \<^verbatim>\<open>RANK_PER_RUN\<close> entries of \<^verbatim>\<open>filteredMaps\<close> all have their
  rank date in the interval that starts at \<open>T\<close>, and the early time
  \<open>max(queueDate, compareDate)\<close> of the set lies in that interval too, the iteration leaves
  the set with \<open>rankDate = rankDateEarly = T + RANK_INTERVAL * MINUTE\<close> and probability 0.
\<close>

theorem per_run_cap:
  assumes "0 < RANK_INTERVAL c * MINUTE c"
    and "1 \<le> RANK_PER_RUN c"
    and "RANK_PER_RUN c \<le> RANK_PER_DAY c"
  shows "(sorted_wrt le_queue qualifiedMaps \<longrightarrow>
          adjustRankDates c qualifiedMaps rankedMaps 0 = Inr combined \<longrightarrow>
          bucket_count c X (drop (length rankedMaps) combined) \<le> RANK_PER_RUN c) \<and>
         (i < length cmb \<longrightarrow> RANK_PER_RUN c \<le> i \<longrightarrow> \<not> unresolved (cmb ! i) \<longrightarrow>
          queueDate (cmb ! i) = Some qd \<longrightarrow>
          RANK_PER_RUN c \<le> length (filteredMaps_at cmb i) \<longrightarrow>
          (\<forall>b \<in> set (take (RANK_PER_RUN c) (filteredMaps_at cmb i)). rankFloor c b = Inr T) \<longrightarrow>
          roundMinutes c (max qd (compareDate_at c n cmb i)) True = T \<longrightarrow>
          adjust_step c n cmb i =
            Inr (cmb[i := (cmb ! i)\<lparr>rankDateEarly := Some (T + RANK_INTERVAL c * MINUTE c),
                                     probability := Some (Num 0),
                                     rankDate := Some (T + RANK_INTERVAL c * MINUTE c)\<rparr>]))"
proof (intro conjI impI)
  assume "sorted_wrt le_queue qualifiedMaps"
    and "adjustRankDates c qualifiedMaps rankedMaps 0 = Inr combined"
  then show "bucket_count c X (drop (length rankedMaps) combined) \<le> RANK_PER_RUN c"
    using assms by (intro per_run_cap_aux)
next
  assume "RANK_PER_RUN c \<le> i" "\<not> unresolved (cmb ! i)" "queueDate (cmb ! i) = Some qd"
    "RANK_PER_RUN c \<le> length (filteredMaps_at cmb i)"
    "\<forall>b \<in> set (take (RANK_PER_RUN c) (filteredMaps_at cmb i)). rankFloor c b = Inr T"
    "roundMinutes c (max qd (compareDate_at c n cmb i)) True = T"
  with assms(1,2) show "adjust_step c n cmb i =
            Inr (cmb[i := (cmb ! i)\<lparr>rankDateEarly := Some (T + RANK_INTERVAL c * MINUTE c),
                                     probability := Some (Num 0),
                                     rankDate := Some (T + RANK_INTERVAL c * MINUTE c)\<rparr>])"
    by (rule slot_overflow_push)
qed

theorem per_run_cap_witness:
  "bucket_count example_constants 1200000000 example_busy_result \<le> 3 \<and>
   adjust_step example_constants 0 example_busy_third 3 = Inr example_busy_result"
proof -
  have g: "0 < RANK_INTERVAL example_constants * MINUTE example_constants"
    and one: "1 \<le> RANK_PER_RUN example_constants"
    and rd: "RANK_PER_RUN example_constants \<le> RANK_PER_DAY example_constants"
    and r3: "RANK_PER_RUN example_constants = 3"
    by (simp_all add: example_constants_def)
  have srt: "sorted_wrt le_queue example_busy_queue"
    by (simp add: le_queue_def example_busy_queue_def example_qualified_def)
  have i: "3 < length example_busy_third"
    and res: "\<not> unresolved (example_busy_third ! 3)"
    and qd: "queueDate (example_busy_third ! 3) = Some 1200060000"
    by (simp_all add: example_busy_third_def example_defs2)
  have len: "RANK_PER_RUN example_constants \<le> length (filteredMaps_at example_busy_third 3)"
    by (simp add: filteredMaps_at_def example_busy_third_def example_defs2)
  have all: "\<forall>b \<in> set (take (RANK_PER_RUN example_constants)
      (filteredMaps_at example_busy_third 3)). rankFloor example_constants b = Inr 1200000000"
    by (simp add: filteredMaps_at_def example_busy_third_def rankFloor_def getTime_def
        roundMinutes_def example_defs2)
  have cd: "compareDate_at example_constants 0 example_busy_third 3 = 0"
    by (rule compareDate_early_index) (simp add: example_constants_def)
  have fl: "roundMinutes example_constants
      (max 1200060000 (compareDate_at example_constants 0 example_busy_third 3)) True = 1200000000"
    unfolding cd by (simp add: roundMinutes_def example_constants_def)
  have upd: "example_busy_third[3 := (example_busy_third ! 3)
      \<lparr>rankDateEarly := Some (1200000000 +
          RANK_INTERVAL example_constants * MINUTE example_constants),
       probability := Some (Num 0),
       rankDate := Some (1200000000 +
          RANK_INTERVAL example_constants * MINUTE example_constants)\<rparr>] = example_busy_result"
    by (simp add: example_busy_third_def example_defs2)
  from per_run_cap[OF g one rd, of example_busy_queue "[]" example_busy_result 1200000000
      3 example_busy_third 1200060000 1200000000 0]
    srt example_busy_run i r3 res qd len all fl
  show ?thesis
    unfolding upd by simp
qed

end
